theory Spec2Isabelle
  imports Main "HOL-Library.Word"
begin

unbundle bit_operations_syntax

section \<open>Intervals (include/ngeo/interval.hpp)\<close>

text \<open>
  \<open>interval<T>\<close> is a closed interval given by its two end points. The two-argument
  constructor sorts its arguments; the empty interval is the one whose minimum
  exceeds its maximum (default constructed as \<open>[MAX, MIN]\<close>).
\<close>

record 'a interval =
  i_min :: 'a
  i_max :: 'a

definition interval2 :: "'a::linorder \<Rightarrow> 'a \<Rightarrow> 'a interval" where
  "interval2 x1 x2 = \<lparr>i_min = min x1 x2, i_max = max x1 x2\<rparr>"

definition interval1 :: "'a \<Rightarrow> 'a interval" where
  "interval1 single = \<lparr>i_min = single, i_max = single\<rparr>"

definition has_intersection :: "'a::linorder interval \<Rightarrow> 'a interval \<Rightarrow> bool" where
  "has_intersection this that \<longleftrightarrow>
     (i_min that \<le> i_min this \<and> i_min this \<le> i_max that)
   \<or> (i_min this \<le> i_min that \<and> i_min that \<le> i_max this)"

definition intersection :: "'a::linorder interval \<Rightarrow> 'a interval \<Rightarrow> 'a interval" where
  "intersection this that =
     interval2 (max (i_min this) (i_min that)) (min (i_max this) (i_max that))"

definition is_empty :: "'a::linorder interval \<Rightarrow> bool" where
  "is_empty this \<longleftrightarrow> i_min this > i_max this"

definition hull :: "'a::linorder interval \<Rightarrow> 'a interval \<Rightarrow> 'a interval" where
  "hull this that =
     (if is_empty this then that
      else if is_empty that then this
      else interval2 (min (i_min this) (i_min that)) (max (i_max this) (i_max that)))"

section \<open>IPv4 addresses, masks and networks (include/ngeo/ip_base.hpp, src/ip_base.cpp)\<close>

type_synonym ip4_addr = "32 word"

definition ip4_MIN :: ip4_addr where "ip4_MIN = 0"
definition ip4_MAX :: ip4_addr where "ip4_MAX = - 1"

text \<open>
  \<open>ip4_addr::lsb_count(set)\<close>: the loop walks a one-bit probe \<open>m\<close> upwards from bit 0
  while the probed bit of the address has the requested value, at most \<open>WIDTH = 32\<close> times.
\<close>

function lsb_count_loop :: "bool \<Rightarrow> ip4_addr \<Rightarrow> ip4_addr \<Rightarrow> int \<Rightarrow> int" where
  "lsb_count_loop b addr m zret =
     (if zret < 32 \<and> (((m AND addr) \<noteq> 0) = b)
      then lsb_count_loop b addr (push_bit 1 m) (zret + 1)
      else zret)"
  by pat_completeness auto
termination
  by (relation "measure (\<lambda>(s, a, m, z). nat (32 - z))") auto

declare lsb_count_loop.simps [simp del]

definition lsb_count :: "ip4_addr \<Rightarrow> bool \<Rightarrow> int" where
  "lsb_count addr b = lsb_count_loop b addr 1 0"

text \<open>
  \<open>ip4_mask\<close> stores only the bit count of a CIDR mask, forced into \<open>[0, 32]\<close> by
  \<open>bounded_count\<close>. \<open>host_order\<close> expands the count to the 32-bit mask value.
\<close>

record ip4_mask =
  m_count :: int

definition bounded_count :: "int \<Rightarrow> int" where
  "bounded_count c = min 32 (max 0 c)"

definition ip4_mask_of :: "int \<Rightarrow> ip4_mask" where
  "ip4_mask_of c = \<lparr>m_count = bounded_count c\<rparr>"

text \<open>
  \<open>operator>>= (unsigned int n)\<close> computes \<open>bounded_count(_count + n)\<close>: the sum of the
  \<open>int\<close> count and the \<open>unsigned int\<close> shift is taken in \<open>unsigned int\<close>, hence modulo
  \<open>2 ^ 32\<close>, and is read back as an \<open>int\<close> for \<open>bounded_count\<close>.
\<close>

definition mask_shift_right :: "ip4_mask \<Rightarrow> 32 word \<Rightarrow> ip4_mask" where
  "mask_shift_right m n =
     \<lparr>m_count = bounded_count (sint (word_of_int (m_count m) + n :: 32 word))\<rparr>"

definition host_order :: "ip4_mask \<Rightarrow> ip4_addr" where
  "host_order m = (if m_count m \<noteq> 0 then push_bit (nat (32 - m_count m)) (NOT 0) else 0)"

record ip4_net =
  m_addr :: ip4_addr
  m_mask :: ip4_mask

definition ip4_net_of :: "ip4_addr \<Rightarrow> ip4_mask \<Rightarrow> ip4_net" where
  "ip4_net_of a m = \<lparr>m_addr = host_order m AND a, m_mask = m\<rparr>"

definition ip4_net_empty :: ip4_net where
  "ip4_net_empty = \<lparr>m_addr = ip4_MAX, m_mask = \<lparr>m_count = 0\<rparr>\<rparr>"

definition max_addr :: "ip4_net \<Rightarrow> ip4_addr" where
  "max_addr n = m_addr n OR NOT (host_order (m_mask n))"

definition net_contains :: "ip4_net \<Rightarrow> ip4_addr \<Rightarrow> bool" where
  "net_contains n a \<longleftrightarrow> host_order (m_mask n) AND a = m_addr n"

section \<open>Network generator (ip4_range::extract_next_network, ip4_net_generator)\<close>

type_synonym ip4_range = "ip4_addr interval"

definition ip4_range_empty :: ip4_range where
  "ip4_range_empty = \<lparr>i_min = ip4_MAX, i_max = ip4_MIN\<rparr>"

text \<open>
  The shrinking loop of \<open>extract_next_network\<close>:
  \<open>while (net.max_addr() > _max) net = ip4_net(_min, net.mask() >> 1);\<close>
  Nothing in the loop itself bounds the number of rounds, so it is a partial function
  and its termination is a theorem.
\<close>

partial_function (option) shrink_net :: "ip4_addr \<Rightarrow> ip4_addr \<Rightarrow> ip4_net \<Rightarrow> ip4_net option" where
  "shrink_net mn mx net =
     (if max_addr net > mx
      then shrink_net mn mx (ip4_net_of mn (mask_shift_right (m_mask net) 1))
      else Some net)"

declare shrink_net.simps [code]

text \<open>
  \<open>extract_next_network\<close> returns its boolean result, the network written to the
  reference argument and the updated range. The code returns \<open>!*this\<close>, which is
  the emptiness test of the updated range.
\<close>

definition extract_next_network :: "ip4_range \<Rightarrow> (bool \<times> ip4_net \<times> ip4_range) option" where
  "extract_next_network r =
     (if is_empty r then Some (False, ip4_net_empty, r)
      else
        let width = lsb_count (i_min r) False in
        case shrink_net (i_min r) (i_max r) (ip4_net_of (i_min r) (ip4_mask_of (32 - width))) of
          None \<Rightarrow> None
        | Some net \<Rightarrow>
            let mn = max_addr net;
                r' = (if mn = i_max r then ip4_range_empty else r\<lparr>i_min := mn + 1\<rparr>)
            in Some (is_empty r', net, r'))"

record ip4_net_generator =
  m_range :: ip4_range
  m_data :: ip4_net

definition generator_end :: ip4_net_generator where
  "generator_end = \<lparr>m_range = ip4_range_empty, m_data = ip4_net_empty\<rparr>"

definition generator_incr :: "ip4_net_generator \<Rightarrow> ip4_net_generator option" where
  "generator_incr g =
     (case extract_next_network (m_range g) of
        None \<Rightarrow> None
      | Some (b, net, r') \<Rightarrow> Some \<lparr>m_range = r', m_data = net\<rparr>)"

definition net_begin :: "ip4_range \<Rightarrow> ip4_net_generator option" where
  "net_begin r = generator_incr \<lparr>m_range = r, m_data = ip4_net_empty\<rparr>"

definition generator_eq :: "ip4_net_generator \<Rightarrow> ip4_net_generator \<Rightarrow> bool" where
  "generator_eq lhs rhs \<longleftrightarrow>
     (m_addr (m_data lhs) = m_addr (m_data rhs)
        \<and> m_count (m_mask (m_data lhs)) = m_count (m_mask (m_data rhs)))
     \<and> (i_min (m_range lhs) = i_min (m_range rhs) \<and> i_max (m_range lhs) = i_max (m_range rhs))"

text \<open>
  The client loop of the documentation,
  \<open>copy(r.net_begin(), r.net_end(), inserter(container, container.end()))\<close>:
  dereference and step until the generator equals the default constructed one.
\<close>

partial_function (option) copy_nets :: "ip4_net_generator \<Rightarrow> ip4_net list option" where
  "copy_nets g =
     (if generator_eq g generator_end then Some []
      else Option.bind (generator_incr g)
             (\<lambda>g'. Option.bind (copy_nets g') (\<lambda>ns. Some (m_data g # ns))))"

declare copy_nets.simps [code]

definition generate_networks :: "ip4_range \<Rightarrow> ip4_net list option" where
  "generate_networks r = Option.bind (net_begin r) copy_nets"

text \<open>Dotted-quad notation and CIDR notation, for stating concrete cases.\<close>

definition octets :: "ip4_addr \<Rightarrow> ip4_addr \<Rightarrow> ip4_addr \<Rightarrow> ip4_addr \<Rightarrow> ip4_addr" where
  "octets a b c d = ((a * 256 + b) * 256 + c) * 256 + d"

definition cidr :: "ip4_addr \<Rightarrow> int \<Rightarrow> ip4_net" where
  "cidr a c = \<lparr>m_addr = a, m_mask = \<lparr>m_count = c\<rparr>\<rparr>"

section \<open>Address ranges of the cnip library (cnip/export/cn-ip-base.h, cnip/cn-ip-base.cpp)\<close>

text \<open>
  \<open>IpAddr\<close> wraps an \<open>unsigned int\<close>; its \<open>+\<close> and \<open>-\<close> have "no wrap checks",
  which is the arithmetic of 32-bit words. \<open>IpRange\<close> is a closed range; its
  two-argument constructor sorts the end points and its default constructor gives
  the whole address space.
\<close>

type_synonym IpAddr = "32 word"

record IpRange =
  m_low :: IpAddr
  m_high :: IpAddr

definition IpRange_default :: IpRange where
  "IpRange_default = \<lparr>m_low = 0, m_high = - 1\<rparr>"

definition IpRange_of :: "IpAddr \<Rightarrow> IpAddr \<Rightarrow> IpRange" where
  "IpRange_of lower upper = \<lparr>m_low = min lower upper, m_high = max lower upper\<rparr>"

definition IsCompatible :: "IpRange \<Rightarrow> IpAddr \<Rightarrow> bool" where
  "IsCompatible this addr \<longleftrightarrow> m_low this \<le> addr \<and> addr \<le> m_high this"

definition HasOverlap :: "IpRange \<Rightarrow> IpRange \<Rightarrow> bool" where
  "HasOverlap this src \<longleftrightarrow> IsCompatible src (m_low this) \<or> IsCompatible this (m_low src)"

definition IsSubset :: "IpRange \<Rightarrow> IpRange \<Rightarrow> bool" where
  "IsSubset this other \<longleftrightarrow> m_high this \<le> m_high other \<and> m_low this \<ge> m_low other"

text \<open>\<open>CalcOverlap(out, src)\<close> writes \<open>out\<close> only when the ranges overlap.\<close>

definition CalcOverlap :: "IpRange \<Rightarrow> IpRange \<Rightarrow> IpRange \<Rightarrow> bool \<times> IpRange" where
  "CalcOverlap this out src =
     (if HasOverlap this src
      then (True, \<lparr>m_low = max (m_low src) (m_low this), m_high = min (m_high this) (m_high src)\<rparr>)
      else (False, out))"

text \<open>\<open>operator <\<close> on ranges: lexicographic on (low, high). It orders the containers.\<close>

definition range_less :: "IpRange \<Rightarrow> IpRange \<Rightarrow> bool" where
  "range_less x y \<longleftrightarrow> m_low x < m_low y \<or> (m_low x = m_low y \<and> m_high x < m_high y)"

section \<open>Ordered containers and their iterators\<close>

text \<open>
  A \<open>std::set<IpRange>\<close> or \<open>std::map<IpRange, Handle>\<close> is the list of its elements in
  key order; an iterator is an index into that list and \<open>end()\<close> is the length.
  Dereferencing or incrementing \<open>end()\<close>, decrementing \<open>begin()\<close> and erasing at
  \<open>end()\<close> are undefined in C++: the model stops there with an error value.
\<close>

datatype ub = DerefEnd | IncrEnd | DecrBegin | EraseEnd | NullHandle

definition lower_bound :: "('e \<Rightarrow> IpRange) \<Rightarrow> 'e list \<Rightarrow> IpRange \<Rightarrow> nat" where
  "lower_bound key xs k = length (takeWhile (\<lambda>e. range_less (key e) k) xs)"

text \<open>
  \<open>insert(hint, value)\<close>: the hint only affects speed. The value is inserted at its
  place in key order unless its key is present already; the result is the container
  and the position of the element with that key.
\<close>

definition insert_at :: "('e \<Rightarrow> IpRange) \<Rightarrow> 'e list \<Rightarrow> 'e \<Rightarrow> 'e list \<times> nat" where
  "insert_at key xs v =
     (let i = lower_bound key xs (key v)
      in if i < length xs \<and> key (xs ! i) = key v then (xs, i)
         else (take i xs @ v # drop i xs, i))"

definition erase_at :: "'e list \<Rightarrow> nat \<Rightarrow> ub + ('e list \<times> nat)" where
  "erase_at xs pos =
     (if pos < length xs then Inr (take pos xs @ drop (Suc pos) xs, pos) else Inl EraseEnd)"

definition deref :: "'e list \<Rightarrow> nat \<Rightarrow> ub + 'e" where
  "deref xs pos = (if pos < length xs then Inr (xs ! pos) else Inl DerefEnd)"

definition incr :: "'e list \<Rightarrow> nat \<Rightarrow> ub + nat" where
  "incr xs pos = (if pos < length xs then Inr (Suc pos) else Inl IncrEnd)"

definition decr :: "'e list \<Rightarrow> nat \<Rightarrow> ub + nat" where
  "decr xs pos = (if 0 < pos then Inr (pos - 1) else Inl DecrBegin)"

text \<open>Sequencing of steps that may stop with an error.\<close>

definition bind_ub :: "ub + 'a \<Rightarrow> ('a \<Rightarrow> ub + 'b) \<Rightarrow> ub + 'b" where
  "bind_ub x f = (case x of Inl e \<Rightarrow> Inl e | Inr v \<Rightarrow> f v)"

section \<open>IpSet::Remove (cnip/cn-ip.cpp)\<close>

type_synonym IpSet = "IpRange list"

text \<open>
  The loop of \<open>IpSet::Remove(const IpRange&)\<close>. Both \<open>insert\<close> calls of the source build
  the range \<open>IpRange(tmpRange.GetLowerBound(), overlap.GetLowerBound() - 1)\<close>, and the
  second one is guarded by \<open>iter != m_set.end()\<close>. The loop has no bound of its own,
  so it is a partial function.
\<close>

partial_function (option) Remove_loop :: "IpRange \<Rightarrow> IpSet \<Rightarrow> nat \<Rightarrow> IpSet option" where
  "Remove_loop rng m_set iter =
     (if iter < length m_set then
        (if HasOverlap (m_set ! iter) rng then
           (let tmpRange = m_set ! iter;
                s1 = take iter m_set @ drop (Suc iter) m_set;
                overlap = snd (CalcOverlap tmpRange IpRange_default rng);
                (s2, iter2) =
                   (if m_low tmpRange \<le> m_low overlap - 1
                    then (let (s, i) = insert_at id s1 (IpRange_of (m_low tmpRange) (m_low overlap - 1))
                          in (s, Suc i))
                    else (s1, iter));
                (s3, iter3) =
                   (if iter2 \<noteq> length s2 \<and> m_high overlap + 1 \<le> m_high tmpRange
                    then insert_at id s2 (IpRange_of (m_low tmpRange) (m_low overlap - 1))
                    else (s2, iter2))
            in Remove_loop rng s3 iter3)
         else Remove_loop rng m_set (Suc iter))
      else Some m_set)"

declare Remove_loop.simps [code]

definition Remove :: "IpSet \<Rightarrow> IpRange \<Rightarrow> IpSet option" where
  "Remove m_set rng = Remove_loop rng m_set 0"

section \<open>Paint map (cnip/export/cn-ip-map.h, cnip/cn-ip-map.cpp)\<close>

text \<open>
  A \<open>Handle\<close> is a shared handle to a \<open>Color\<close>, which holds one \<open>int\<close>: \<open>None\<close> is the
  null handle (the default constructed one), \<open>Some c\<close> refers to a color of value
  \<open>c\<close>. \<open>operator +\<close> and \<open>operator -\<close> allocate a new color from the two values;
  \<open>*h1 == *h2\<close> compares the values. All three read through the handles.
  \<open>Pair()\<close> is the whole address space with the null handle; a pair is compared with
  it by the range and by the handle, and a handle that refers to a color is never
  equal to the null handle.
\<close>

type_synonym Handle = "int option"
type_synonym Pair = "IpRange \<times> Handle"
type_synonym Container = "Pair list"

definition Pair_default :: Pair where
  "Pair_default = (IpRange_default, None)"

definition color_plus :: "Handle \<Rightarrow> Handle \<Rightarrow> ub + Handle" where
  "color_plus h1 h2 =
     (case h1 of None \<Rightarrow> Inl NullHandle
      | Some a \<Rightarrow> (case h2 of None \<Rightarrow> Inl NullHandle | Some b \<Rightarrow> Inr (Some (a + b))))"

definition color_minus :: "Handle \<Rightarrow> Handle \<Rightarrow> ub + Handle" where
  "color_minus h1 h2 =
     (case h1 of None \<Rightarrow> Inl NullHandle
      | Some a \<Rightarrow> (case h2 of None \<Rightarrow> Inl NullHandle | Some b \<Rightarrow> Inr (Some (a - b))))"

definition color_eq :: "Handle \<Rightarrow> Handle \<Rightarrow> ub + bool" where
  "color_eq h1 h2 =
     (case h1 of None \<Rightarrow> Inl NullHandle
      | Some a \<Rightarrow> (case h2 of None \<Rightarrow> Inl NullHandle | Some b \<Rightarrow> Inr (a = b)))"

definition InsertToMap ::
  "IpAddr \<Rightarrow> IpAddr \<Rightarrow> Handle \<Rightarrow> Container \<Rightarrow> nat \<Rightarrow> bool \<times> Container \<times> nat" where
  "InsertToMap lowAddr highAddr color spanMap pos =
     (if lowAddr \<le> highAddr
      then (let (m, i) = insert_at fst spanMap (IpRange_of lowAddr highAddr, color)
            in (True, m, i))
      else (False, spanMap, pos))"

text \<open>\<open>LeftSkew\<close> returns the map, the position and the pair it stored in \<open>tmpPair\<close>.\<close>

definition LeftSkew :: "Container \<Rightarrow> nat \<Rightarrow> IpRange \<Rightarrow> ub + (Container \<times> nat \<times> Pair)" where
  "LeftSkew m pos rng =
     bind_ub (deref m pos) (\<lambda>tmpPair.
     bind_ub (erase_at m pos) (\<lambda>(m1, pos1).
       let (ins, m2, pos2) =
             InsertToMap (m_low (fst tmpPair)) (m_low rng - 1) (snd tmpPair) m1 pos1
       in if ins then bind_ub (incr m2 pos2) (\<lambda>pos3. Inr (m2, pos3, tmpPair))
          else Inr (m2, pos2, tmpPair)))"

subsection \<open>Paint, Uncolor\<close>

definition Pt_left :: "IpRange \<Rightarrow> Container \<Rightarrow> nat \<Rightarrow> Pair \<Rightarrow> ub + (Container \<times> nat \<times> Pair)" where
  "Pt_left rng m pos tmpPair =
     (if pos = 0 then Inr (m, pos, tmpPair)
      else bind_ub (decr m pos) (\<lambda>p.
           bind_ub (deref m p) (\<lambda>e.
             if HasOverlap rng (fst e) then LeftSkew m p rng
             else bind_ub (incr m p) (\<lambda>p'. Inr (m, p', tmpPair)))))"

function Pt_middle_loop :: "IpRange \<Rightarrow> Container \<Rightarrow> nat \<Rightarrow> Container \<times> nat" where
  "Pt_middle_loop rng m pos =
     (if pos < length m \<and> IsSubset (fst (m ! pos)) rng
      then Pt_middle_loop rng (take pos m @ drop (Suc pos) m) pos
      else (m, pos))"
  by pat_completeness auto
termination
  by (relation "measure (\<lambda>(r, m, p). length m)") auto

declare Pt_middle_loop.simps [simp del]

text \<open>
  After the loop, \<open>Pt_middle\<close> evaluates \<open>range.HasOverlap(pos->first)\<close> with no test
  of \<open>pos\<close> against \<open>end()\<close>.
\<close>

definition Pt_middle ::
  "IpRange \<Rightarrow> Container \<Rightarrow> nat \<Rightarrow> Pair \<Rightarrow> bool \<Rightarrow> ub + (Container \<times> nat \<times> Pair \<times> bool)" where
  "Pt_middle rng m pos tmpPair isLeftSpan =
     (let (m1, pos1) = Pt_middle_loop rng m pos
      in bind_ub (deref m1 pos1) (\<lambda>e.
           if HasOverlap rng (fst e) then Inr (m1, pos1, e, False)
           else Inr (m1, pos1, tmpPair, isLeftSpan)))"

definition Pt_right ::
  "IpRange \<Rightarrow> Handle \<Rightarrow> Container \<Rightarrow> nat \<Rightarrow> Pair \<Rightarrow> bool \<Rightarrow> ub + Container" where
  "Pt_right rng color m pos tmpPair isLeftSpan =
     (if tmpPair \<noteq> Pair_default then
        bind_ub (if \<not> isLeftSpan then erase_at m pos else Inr (m, pos)) (\<lambda>(m1, pos1).
          let (m2, pos2) = insert_at fst m1 (rng, color)
          in bind_ub (incr m2 pos2) (\<lambda>pos3.
               let (ins, m3, pos4) =
                     InsertToMap (m_high rng + 1) (m_high (fst tmpPair)) (snd tmpPair) m2 pos3
               in Inr m3))
      else Inr (fst (insert_at fst m (rng, color))))"

subsection \<open>Unpaint\<close>

definition Upt_left ::
  "IpRange \<Rightarrow> Handle \<Rightarrow> Container \<Rightarrow> nat \<Rightarrow> Pair \<Rightarrow> ub + (Container \<times> nat \<times> Pair)" where
  "Upt_left rng color m pos tmpPair =
     (if pos = 0 then Inr (m, pos, tmpPair)
      else bind_ub (decr m pos) (\<lambda>p.
           bind_ub (deref m p) (\<lambda>e.
             bind_ub (if HasOverlap rng (fst e) then color_eq (snd e) color else Inr False) (\<lambda>c.
               if c then LeftSkew m p rng
               else bind_ub (incr m p) (\<lambda>p'. Inr (m, p', tmpPair))))))"

function Upt_middle_loop :: "IpRange \<Rightarrow> Handle \<Rightarrow> Container \<Rightarrow> nat \<Rightarrow> ub + (Container \<times> nat)" where
  "Upt_middle_loop rng color m pos =
     (if pos < length m \<and> IsSubset (fst (m ! pos)) rng
      then (case color_eq (snd (m ! pos)) color of
              Inl e \<Rightarrow> Inl e
            | Inr c \<Rightarrow>
                if c then Upt_middle_loop rng color (take pos m @ drop (Suc pos) m) pos
                else Upt_middle_loop rng color m (Suc pos))
      else Inr (m, pos))"
  by pat_completeness auto
termination
  by (relation "measure (\<lambda>(r, c, m, p). length m - p)") auto

declare Upt_middle_loop.simps [simp del]

definition Upt_middle ::
  "IpRange \<Rightarrow> Handle \<Rightarrow> Container \<Rightarrow> nat \<Rightarrow> Pair \<Rightarrow> bool
     \<Rightarrow> ub + (Container \<times> nat \<times> Pair \<times> bool)" where
  "Upt_middle rng color m pos tmpPair isLeftSpan =
     bind_ub (Upt_middle_loop rng color m pos) (\<lambda>(m1, pos1).
     bind_ub (deref m1 pos1) (\<lambda>e.
       if HasOverlap rng (fst e) then Inr (m1, pos1, e, False)
       else Inr (m1, pos1, tmpPair, isLeftSpan)))"

definition Upt_right ::
  "IpRange \<Rightarrow> Container \<Rightarrow> nat \<Rightarrow> Pair \<Rightarrow> bool \<Rightarrow> ub + Container" where
  "Upt_right rng m pos tmpPair isLeftSpan =
     (if tmpPair \<noteq> Pair_default then
        bind_ub (if \<not> isLeftSpan then erase_at m pos else Inr (m, pos)) (\<lambda>(m1, pos1).
        bind_ub (incr m1 pos1) (\<lambda>pos2.
          let (ins, m2, pos3) =
                InsertToMap (m_high rng + 1) (m_high (fst tmpPair)) (snd tmpPair) m1 pos2
          in Inr m2))
      else Inr m)"

text \<open>
  \<open>Unpaint\<close> and \<open>UnColor\<close> end after the right phase; they do not call \<open>Coalesce\<close>.
  \<open>UnColor\<close> passes a null handle as the color, which its phases never read.
\<close>

definition Unpaint :: "IpRange \<Rightarrow> Handle \<Rightarrow> Container \<Rightarrow> ub + Container" where
  "Unpaint rng color m_map =
     bind_ub (Upt_left rng color m_map (lower_bound fst m_map rng) Pair_default) (\<lambda>(m1, pos1, mapUnit1).
     bind_ub (Upt_middle rng color m1 pos1 mapUnit1 True) (\<lambda>(m2, pos2, mapUnit2, isLeftSpan).
     Upt_right rng m2 pos2 mapUnit2 isLeftSpan))"

definition UnColor :: "IpRange \<Rightarrow> Container \<Rightarrow> ub + Container" where
  "UnColor rng m_map =
     bind_ub (Pt_left rng m_map (lower_bound fst m_map rng) Pair_default) (\<lambda>(m1, pos1, mapUnit1).
     bind_ub (Pt_middle rng m1 pos1 mapUnit1 True) (\<lambda>(m2, pos2, mapUnit2, isLeftSpan).
     Upt_right rng m2 pos2 mapUnit2 isLeftSpan))"

subsection \<open>Blend\<close>

definition Bd_left ::
  "IpRange \<Rightarrow> Handle \<Rightarrow> Container \<Rightarrow> nat \<Rightarrow> Pair \<Rightarrow> ub + (Container \<times> nat \<times> Pair)" where
  "Bd_left rng color m pos tmpPair =
     (if pos = 0 then Inr (m, pos, tmpPair)
      else bind_ub (decr m pos) (\<lambda>p.
           bind_ub (deref m p) (\<lambda>e.
             if HasOverlap rng (fst e) then
               bind_ub (LeftSkew m p rng) (\<lambda>(m1, p1, tmp1).
               bind_ub (color_plus (snd tmp1) color) (\<lambda>c.
                 let (ins, m2, p2) =
                       InsertToMap (m_low rng) (min (m_high rng) (m_high (fst tmp1))) c m1 p1
                 in bind_ub (incr m2 p2) (\<lambda>p3. Inr (m2, p3, tmp1))))
             else bind_ub (incr m p) (\<lambda>p'. Inr (m, p', tmpPair)))))"

text \<open>
  The loop of \<open>Bd_middle\<close> inserts and erases around the moving position, so the
  model gives it no bound: it is a partial function, \<open>None\<close> meaning that it runs
  forever.
\<close>

partial_function (option) Bd_middle_loop ::
  "IpRange \<Rightarrow> Handle \<Rightarrow> Container \<Rightarrow> nat \<Rightarrow> Pair \<Rightarrow> (ub + (Container \<times> nat \<times> Pair)) option" where
  "Bd_middle_loop rng color m pos lastPair =
     (if pos < length m \<and> IsSubset (fst (m ! pos)) rng then
        (case InsertToMap
                (if lastPair = Pair_default then m_low rng else m_high (fst lastPair) + 1)
                (m_low (fst (m ! pos)) - 1) color m pos of
           (ins, m1, p1) \<Rightarrow>
        (case (if ins then incr m1 p1 else Inr p1) of
           Inl x \<Rightarrow> Some (Inl x)
         | Inr p2 \<Rightarrow>
        (case deref m1 p2 of
           Inl x \<Rightarrow> Some (Inl x)
         | Inr lastPair' \<Rightarrow>
        (case erase_at m1 p2 of
           Inl x \<Rightarrow> Some (Inl x)
         | Inr (m2, p3) \<Rightarrow>
        (case color_plus (snd lastPair') color of
           Inl x \<Rightarrow> Some (Inl x)
         | Inr c \<Rightarrow>
        (case InsertToMap (m_low (fst lastPair')) (m_high (fst lastPair')) c m2 p3 of
           (ins2, m3, p4) \<Rightarrow>
        (case incr m3 p4 of
           Inl x \<Rightarrow> Some (Inl x)
         | Inr p5 \<Rightarrow> Bd_middle_loop rng color m3 p5 lastPair')))))))
      else Some (Inr (m, pos, lastPair)))"

declare Bd_middle_loop.simps [code]

definition Bd_middle_tail ::
  "IpRange \<Rightarrow> Handle \<Rightarrow> Pair \<Rightarrow> bool \<Rightarrow> Container \<times> nat \<times> Pair
     \<Rightarrow> ub + (Container \<times> nat \<times> Pair \<times> bool)" where
  "Bd_middle_tail rng color tmpPair isLeftSpan st =
     (case st of (m1, p1, lastPair) \<Rightarrow>
        bind_ub (deref m1 p1) (\<lambda>e.
          if HasOverlap rng (fst e) then
            (if p1 \<noteq> 0 then
               (case InsertToMap (m_high (fst lastPair) + 1) (m_low (fst e) - 1) color m1 p1 of
                  (ins, m2, p2) \<Rightarrow> Inr (m2, p2, e, False))
             else Inr (m1, p1, e, False))
          else
            (case InsertToMap (m_high (fst lastPair) + 1) (m_high rng) color m1 p1 of
               (ins, m2, p2) \<Rightarrow> Inr (m2, p2, tmpPair, isLeftSpan))))"

definition Bd_middle ::
  "IpRange \<Rightarrow> Handle \<Rightarrow> Container \<Rightarrow> nat \<Rightarrow> Pair \<Rightarrow> bool
     \<Rightarrow> (ub + (Container \<times> nat \<times> Pair \<times> bool)) option" where
  "Bd_middle rng color m pos tmpPair isLeftSpan =
     map_option (\<lambda>r. bind_ub r (Bd_middle_tail rng color tmpPair isLeftSpan))
       (Bd_middle_loop rng color m pos tmpPair)"

definition Bd_right ::
  "IpRange \<Rightarrow> Handle \<Rightarrow> Container \<Rightarrow> nat \<Rightarrow> Pair \<Rightarrow> bool \<Rightarrow> ub + Container" where
  "Bd_right rng color m pos tmpPair isLeftSpan =
     (if tmpPair \<noteq> Pair_default then
        bind_ub
          (if \<not> isLeftSpan then
             bind_ub (erase_at m pos) (\<lambda>(m1, p1).
             bind_ub (color_plus (snd tmpPair) color) (\<lambda>c.
             bind_ub (incr m1 p1) (\<lambda>p2.
               case InsertToMap (m_low (fst tmpPair)) (m_high rng) c m1 p2 of
                 (ins, m2, p3) \<Rightarrow> Inr (m2, p3))))
           else Inr (m, pos))
          (\<lambda>(m3, p4).
             if m_high rng < m_high (fst tmpPair) then
               bind_ub (incr m3 p4) (\<lambda>p5.
                 case InsertToMap (m_high rng + 1) (m_high (fst tmpPair)) (snd tmpPair) m3 p5 of
                   (ins, m4, p6) \<Rightarrow> Inr m4)
             else Inr m3)
      else Inr (fst (insert_at fst m (rng, color))))"

subsection \<open>Unblend\<close>

definition Ubd_left ::
  "IpRange \<Rightarrow> Handle \<Rightarrow> Container \<Rightarrow> nat \<Rightarrow> Pair \<Rightarrow> ub + (Container \<times> nat \<times> Pair)" where
  "Ubd_left rng color m pos tmpPair =
     (if pos = 0 then Inr (m, pos, tmpPair)
      else bind_ub (decr m pos) (\<lambda>p.
           bind_ub (deref m p) (\<lambda>e.
             if HasOverlap rng (fst e) then
               bind_ub (LeftSkew m p rng) (\<lambda>(m1, p1, tmp1).
               bind_ub (color_minus (snd tmp1) color) (\<lambda>c.
                 case InsertToMap (m_low rng) (min (m_high rng) (m_high (fst tmp1))) c m1 p1 of
                   (ins, m2, p2) \<Rightarrow>
                     if ins then bind_ub (incr m2 p2) (\<lambda>p3. Inr (m2, p3, tmp1))
                     else Inr (m2, p2, tmp1)))
             else bind_ub (incr m p) (\<lambda>p'. Inr (m, p', tmpPair)))))"

partial_function (option) Ubd_middle_loop ::
  "IpRange \<Rightarrow> Handle \<Rightarrow> Container \<Rightarrow> nat \<Rightarrow> (ub + (Container \<times> nat)) option" where
  "Ubd_middle_loop rng color m pos =
     (if pos < length m \<and> IsSubset (fst (m ! pos)) rng then
        (case color_minus (snd (m ! pos)) color of
           Inl x \<Rightarrow> Some (Inl x)
         | Inr c \<Rightarrow>
        (case InsertToMap (m_low (fst (m ! pos))) (m_high (fst (m ! pos))) c
                (take pos m @ drop (Suc pos) m) pos of
           (ins, m2, p2) \<Rightarrow>
        (case incr m2 p2 of
           Inl x \<Rightarrow> Some (Inl x)
         | Inr p3 \<Rightarrow> Ubd_middle_loop rng color m2 p3)))
      else Some (Inr (m, pos)))"

declare Ubd_middle_loop.simps [code]

definition Ubd_middle ::
  "IpRange \<Rightarrow> Handle \<Rightarrow> Container \<Rightarrow> nat \<Rightarrow> Pair \<Rightarrow> bool
     \<Rightarrow> (ub + (Container \<times> nat \<times> Pair \<times> bool)) option" where
  "Ubd_middle rng color m pos tmpPair isLeftSpan =
     map_option (\<lambda>r. bind_ub r (\<lambda>(m1, pos1).
         bind_ub (deref m1 pos1) (\<lambda>e.
           if HasOverlap rng (fst e) then Inr (m1, pos1, e, False)
           else Inr (m1, pos1, tmpPair, isLeftSpan))))
       (Ubd_middle_loop rng color m pos)"

definition Ubd_right ::
  "IpRange \<Rightarrow> Handle \<Rightarrow> Container \<Rightarrow> nat \<Rightarrow> Pair \<Rightarrow> bool \<Rightarrow> ub + Container" where
  "Ubd_right rng color m pos tmpPair isLeftSpan =
     (if tmpPair \<noteq> Pair_default then
        bind_ub
          (if \<not> isLeftSpan then
             bind_ub (erase_at m pos) (\<lambda>(m1, p1).
             bind_ub (color_minus (snd tmpPair) color) (\<lambda>c.
             bind_ub (incr m1 p1) (\<lambda>p2.
               case InsertToMap (m_low (fst tmpPair)) (m_high rng) c m1 p2 of
                 (ins, m2, p3) \<Rightarrow> Inr (m2, p3))))
           else Inr (m, pos))
          (\<lambda>(m3, p4).
             if m_high rng < m_high (fst tmpPair) then
               bind_ub (incr m3 p4) (\<lambda>p5.
                 case InsertToMap (m_high rng + 1) (m_high (fst tmpPair)) (snd tmpPair) m3 p5 of
                   (ins, m4, p6) \<Rightarrow> Inr m4)
             else Inr m3)
      else Inr m)"

subsection \<open>Coalesce\<close>

text \<open>
  \<open>Coalesce\<close> walks two iterators, \<open>pos\<close> and \<open>next_pos\<close>. The inner loop merges a run
  of adjacent segments of one color; its test reads \<open>next_pos->first\<close> with no test of
  \<open>next_pos\<close> against \<open>end()\<close>. After a run has been replaced by one segment,
  \<open>next_pos\<close> still refers to the element it referred to, whose index has changed.
\<close>

partial_function (option) Coalesce_inner ::
  "Container \<Rightarrow> nat \<Rightarrow> nat \<Rightarrow> IpAddr \<Rightarrow> (ub + (nat \<times> nat \<times> IpAddr)) option" where
  "Coalesce_inner m pos next_pos high =
     (case deref m pos of
        Inl x \<Rightarrow> Some (Inl x)
      | Inr p \<Rightarrow>
     (case deref m next_pos of
        Inl x \<Rightarrow> Some (Inl x)
      | Inr q \<Rightarrow>
          if m_high (fst p) = m_low (fst q) - 1 then
            (case color_eq (snd p) (snd q) of
               Inl x \<Rightarrow> Some (Inl x)
             | Inr c \<Rightarrow>
                 if c then Coalesce_inner m next_pos (Suc next_pos) (m_high (fst q))
                 else Some (Inr (pos, next_pos, high)))
          else Some (Inr (pos, next_pos, high))))"

declare Coalesce_inner.simps [code]

definition Coalesce_merge ::
  "Container \<Rightarrow> nat \<Rightarrow> IpAddr \<Rightarrow> nat \<times> nat \<times> IpAddr \<Rightarrow> Container \<times> nat" where
  "Coalesce_merge m begin_pos low st =
     (case st of (pos, next_pos, high) \<Rightarrow>
        if begin_pos \<noteq> pos then
          (case insert_at fst (take begin_pos m @ drop next_pos m)
                  (IpRange_of low high, snd (m ! pos)) of
             (m', i) \<Rightarrow> (m', if i \<le> begin_pos then Suc begin_pos else begin_pos))
        else (m, next_pos))"

partial_function (option) Coalesce_loop ::
  "Container \<Rightarrow> nat \<Rightarrow> nat \<Rightarrow> IpAddr \<Rightarrow> (ub + Container) option" where
  "Coalesce_loop m pos next_pos high =
     (if pos < length m then
        (case Coalesce_inner m pos next_pos high of
           None \<Rightarrow> None
         | Some (Inl x) \<Rightarrow> Some (Inl x)
         | Some (Inr st) \<Rightarrow>
        (case Coalesce_merge m pos (m_low (fst (m ! pos))) st of
           (m2, next_pos2) \<Rightarrow>
        (case incr m2 next_pos2 of
           Inl x \<Rightarrow> Some (Inl x)
         | Inr next_pos3 \<Rightarrow> Coalesce_loop m2 next_pos2 next_pos3 (snd (snd st)))))
      else Some (Inr m))"

declare Coalesce_loop.simps [code]

definition Coalesce :: "Container \<Rightarrow> (ub + Container) option" where
  "Coalesce m =
     (case incr m 0 of
        Inl x \<Rightarrow> Some (Inl x)
      | Inr next_pos \<Rightarrow> Coalesce_loop m 0 next_pos 0)"

subsection \<open>The operations that end with Coalesce\<close>

definition then_Coalesce :: "ub + Container \<Rightarrow> (ub + Container) option" where
  "then_Coalesce r = (case r of Inl x \<Rightarrow> Some (Inl x) | Inr m \<Rightarrow> Coalesce m)"

definition Paint :: "IpRange \<Rightarrow> Handle \<Rightarrow> Container \<Rightarrow> (ub + Container) option" where
  "Paint rng color m_map =
     then_Coalesce
       (bind_ub (Pt_left rng m_map (lower_bound fst m_map rng) Pair_default) (\<lambda>(m1, pos1, mapUnit1).
        bind_ub (Pt_middle rng m1 pos1 mapUnit1 True) (\<lambda>(m2, pos2, mapUnit2, isLeftSpan).
        Pt_right rng color m2 pos2 mapUnit2 isLeftSpan)))"

definition Blend :: "IpRange \<Rightarrow> Handle \<Rightarrow> Container \<Rightarrow> (ub + Container) option" where
  "Blend rng color m_map =
     (case Bd_left rng color m_map (lower_bound fst m_map rng) Pair_default of
        Inl x \<Rightarrow> Some (Inl x)
      | Inr (m1, pos1, mapUnit1) \<Rightarrow>
     (case Bd_middle rng color m1 pos1 mapUnit1 True of
        None \<Rightarrow> None
      | Some (Inl x) \<Rightarrow> Some (Inl x)
      | Some (Inr (m2, pos2, mapUnit2, isLeftSpan)) \<Rightarrow>
          then_Coalesce (Bd_right rng color m2 pos2 mapUnit2 isLeftSpan)))"

definition Unblend :: "IpRange \<Rightarrow> Handle \<Rightarrow> Container \<Rightarrow> (ub + Container) option" where
  "Unblend rng color m_map =
     (case Ubd_left rng color m_map (lower_bound fst m_map rng) Pair_default of
        Inl x \<Rightarrow> Some (Inl x)
      | Inr (m1, pos1, mapUnit1) \<Rightarrow>
     (case Ubd_middle rng color m1 pos1 mapUnit1 True of
        None \<Rightarrow> None
      | Some (Inl x) \<Rightarrow> Some (Inl x)
      | Some (Inr (m2, pos2, mapUnit2, isLeftSpan)) \<Rightarrow>
          then_Coalesce (Ubd_right rng color m2 pos2 mapUnit2 isLeftSpan)))"

section \<open>Notions used to state the network cover\<close>

text \<open>
  \<open>greedy lo hi k\<close>: among the networks based at address \<open>lo\<close> that stay inside
  \<open>[lo, hi]\<close>, the one of size \<open>2 ^ k\<close> is the largest. \<open>tiling lo hi ns\<close>: the list
  \<open>ns\<close> is a chain of such largest networks, each starting one past the end of
  the previous one, the last ending at \<open>hi\<close>.
\<close>

definition greedy :: "nat \<Rightarrow> nat \<Rightarrow> nat \<Rightarrow> bool" where
  "greedy lo hi k \<longleftrightarrow>
     k \<le> 32 \<and> 2 ^ k dvd lo \<and> lo + 2 ^ k - 1 \<le> hi
     \<and> (\<forall>j. j \<le> 32 \<and> 2 ^ j dvd lo \<and> lo + 2 ^ j - 1 \<le> hi \<longrightarrow> j \<le> k)"

fun tiling :: "ip4_addr \<Rightarrow> ip4_addr \<Rightarrow> ip4_net list \<Rightarrow> bool" where
  "tiling lo hi [] = False"
| "tiling lo hi (n # ns) =
     (\<exists>k. greedy (unat lo) (unat hi) k
        \<and> n = \<lparr>m_addr = lo, m_mask = \<lparr>m_count = 32 - int k\<rparr>\<rparr>
        \<and> (if max_addr n = hi then ns = [] else tiling (max_addr n + 1) hi ns))"

text \<open>
  A well-formed CIDR network: the bit count lies in \<open>[0, 32]\<close> and the address has no
  bit set below the mask. Two networks are mergeable when some single network holds
  exactly the addresses of the two.
\<close>

definition valid_net :: "ip4_net \<Rightarrow> bool" where
  "valid_net n \<longleftrightarrow> 0 \<le> m_count (m_mask n) \<and> m_count (m_mask n) \<le> 32
                 \<and> ip4_net_of (m_addr n) (m_mask n) = n"

definition mergeable :: "ip4_net \<Rightarrow> ip4_net \<Rightarrow> bool" where
  "mergeable n n' \<longleftrightarrow>
     (\<exists>A C. \<forall>a. net_contains (ip4_net_of A (ip4_mask_of C)) a
                    \<longleftrightarrow> net_contains n a \<or> net_contains n' a)"

text \<open>
  The numeric reading of a network \<open>a/c\<close>, which does not go through the mask expansion
  of the code: its first address \<open>a\<close> as a number, its size \<open>2 ^ (32 - c)\<close>, and the block
  of addresses \<open>[a, a + 2 ^ (32 - c) - 1]\<close>. \<open>cidr_block lo sz\<close>: the numbers from \<open>lo\<close>
  to \<open>lo + sz - 1\<close> are the addresses of a CIDR network, that is, \<open>sz\<close> is a power of two
  that divides \<open>lo\<close> and the block ends inside the address space.
\<close>

definition net_first :: "ip4_net \<Rightarrow> nat" where
  "net_first n = unat (m_addr n)"

definition net_size :: "ip4_net \<Rightarrow> nat" where
  "net_size n = 2 ^ nat (32 - m_count (m_mask n))"

definition cidr_block :: "nat \<Rightarrow> nat \<Rightarrow> bool" where
  "cidr_block lo sz \<longleftrightarrow> (\<exists>k. k \<le> 32 \<and> sz = 2 ^ k \<and> 2 ^ k dvd lo \<and> lo + sz \<le> 2 ^ 32)"

definition in_block :: "ip4_net \<Rightarrow> ip4_addr \<Rightarrow> bool" where
  "in_block n a \<longleftrightarrow> net_first n \<le> unat a \<and> unat a < net_first n + net_size n"

section \<open>Bit-level facts about addresses, masks and networks\<close>

lemma mask_shift_right_one:
  assumes "0 \<le> c" "c \<le> 32"
  shows "mask_shift_right \<lparr>m_count = c\<rparr> 1 = \<lparr>m_count = min 32 (c + 1)\<rparr>"
proof -
  have "(word_of_int c + 1 :: 32 word) = word_of_int (c + 1)" by simp
  moreover have "sint (word_of_int (c + 1) :: 32 word) = c + 1"
  proof -
    have "sint (word_of_int (c + 1) :: 32 word) = signed_take_bit 31 (c + 1)"
      by (simp only: sint_sbintrunc') simp
    also have "\<dots> = c + 1"
      using assms by (simp add: signed_take_bit_int_eq_self)
    finally show ?thesis .
  qed
  ultimately show ?thesis using assms by (simp add: mask_shift_right_def bounded_count_def)
qed

lemma take_bit_no_bits: "take_bit n (a::32 word) = 0 \<Longrightarrow> i < n \<Longrightarrow> \<not> bit a i"
proof
  assume a: "take_bit n a = 0" "i < n" "bit a i"
  have "bit (take_bit n a) i" using a(2,3) by (simp add: bit_take_bit_iff)
  then show False using a(1) by simp
qed

lemma take_bit_Suc_zero:
  "\<not> bit (addr::32 word) n \<Longrightarrow> take_bit n addr = 0 \<Longrightarrow> take_bit (Suc n) addr = 0"
proof (rule bit_eqI)
  fix i
  assume a: "\<not> bit addr n" "take_bit n addr = 0"
  have "\<not> bit addr i" if "i < Suc n"
    using that a take_bit_no_bits [of n addr i] by (cases "i = n") auto
  then show "bit (take_bit (Suc n) addr) i = bit (0 :: 32 word) i"
    by (simp add: bit_take_bit_iff)
qed

lemma lsb_loop_inv:
  "0 \<le> z \<Longrightarrow> z \<le> 32 \<Longrightarrow> m = 2 ^ nat z \<Longrightarrow> take_bit (nat z) a = 0 \<Longrightarrow>
   (let w = lsb_count_loop False a m z in
      z \<le> w \<and> w \<le> 32 \<and> take_bit (nat w) a = 0 \<and> (w < 32 \<longrightarrow> bit a (nat w)))"
proof (induction False a m z rule: lsb_count_loop.induct)
  case (1 addr m zret)
  show ?case
  proof (cases "zret < 32 \<and> (((m AND addr) \<noteq> 0) = False)")
    case True
    then have nb: "\<not> bit addr (nat zret)"
      using 1(4) by (simp add: and_exp_eq_0_iff_not_bit and.commute)
    have s: "nat (zret + 1) = Suc (nat zret)" using 1(2) by simp
    have tb: "take_bit (nat (zret + 1)) addr = 0"
      using take_bit_Suc_zero [OF nb 1(5)] by (simp only: s)
    have "push_bit 1 m = 2 ^ Suc (nat zret)"
      using 1(4) by simp
    then have m2: "push_bit 1 m = 2 ^ nat (zret + 1)"
      by (simp only: s)
    have z: "0 \<le> zret + 1" "zret + 1 \<le> 32" using 1(2) True by simp_all
    have ih: "let w = lsb_count_loop False addr (push_bit 1 m) (zret + 1) in
      zret + 1 \<le> w \<and> w \<le> 32 \<and> take_bit (nat w) addr = 0 \<and> (w < 32 \<longrightarrow> bit addr (nat w))"
      by (rule 1(1) [OF True z m2 tb])
    have unfold: "lsb_count_loop False addr m zret = lsb_count_loop False addr (push_bit 1 m) (zret + 1)"
      using True by (subst lsb_count_loop.simps) simp
    show ?thesis
      using ih unfolding unfold Let_def by simp
  next
    case False
    then have "lsb_count_loop False addr m zret = zret"
      by (subst lsb_count_loop.simps) auto
    moreover have "zret < 32 \<longrightarrow> bit addr (nat zret)"
      using False 1(4) by (auto simp: and_exp_eq_0_iff_not_bit and.commute)
    ultimately show ?thesis using 1 by (simp add: Let_def)
  qed
qed

lemma lsb_count_props:
  "0 \<le> lsb_count a False \<and> lsb_count a False \<le> 32
   \<and> 2 ^ nat (lsb_count a False) dvd unat a
   \<and> (lsb_count a False < 32 \<longrightarrow> \<not> 2 ^ Suc (nat (lsb_count a False)) dvd unat a)"
proof -
  let ?w = "lsb_count a False"
  have inv: "0 \<le> ?w \<and> ?w \<le> 32 \<and> take_bit (nat ?w) a = 0 \<and> (?w < 32 \<longrightarrow> bit a (nat ?w))"
    using lsb_loop_inv [of 0 1 a] by (simp add: lsb_count_def Let_def)
  have d: "2 ^ nat ?w dvd unat a"
    using inv by (simp add: and_mask_dvd_nat take_bit_eq_mask)
  have nd: "\<not> 2 ^ Suc (nat ?w) dvd unat a" if "?w < 32"
  proof
    assume "2 ^ Suc (nat ?w) dvd unat a"
    then have "take_bit (Suc (nat ?w)) a = 0"
      by (simp only: and_mask_dvd_nat take_bit_eq_mask)
    then have "\<not> bit a (nat ?w)" by (rule take_bit_no_bits) simp
    then show False using inv that by simp
  qed
  show ?thesis using inv d nd by blast
qed

lemma host_order_eq:
  "0 \<le> c \<Longrightarrow> c \<le> 32 \<Longrightarrow> host_order \<lparr>m_count = c\<rparr> = NOT (mask (nat (32 - c)))"
proof (cases "c = 0")
  case True
  have "mask 32 = (- 1 :: 32 word)" by (simp add: mask_eq_exp_minus_1)
  then show ?thesis using True by (simp add: host_order_def)
next
  case False
  have "host_order \<lparr>m_count = c\<rparr> = push_bit (nat (32 - c)) (- 1)"
    using False by (simp add: host_order_def)
  then show ?thesis by (simp only: push_bit_minus_one_eq_not_mask)
qed

lemma push_drop_eq: "push_bit k (drop_bit k a) = NOT (mask k) AND (a :: 32 word)"
  by (rule bit_eqI) (auto simp: bit_simps)

lemma unat_and_not_mask:
  "unat (NOT (mask k) AND (a :: 32 word)) = unat a div 2 ^ k * 2 ^ k"
proof -
  have "push_bit k (drop_bit k a) + take_bit k a = a" by (rule bits_ident)
  then have e: "NOT (mask k) AND a = a - take_bit k a"
    by (simp add: push_drop_eq [symmetric] algebra_simps)
  have le: "take_bit k a \<le> a"
    by (simp add: word_le_nat_alt unsigned_take_bit_eq take_bit_nat_def)
  have "unat (a - take_bit k a) = unat a - unat a mod 2 ^ k"
    using unat_sub [OF le] by (simp add: unsigned_take_bit_eq take_bit_nat_def)
  also have "\<dots> = unat a div 2 ^ k * 2 ^ k"
    by (simp add: minus_mod_eq_div_mult)
  finally show ?thesis by (simp only: e)
qed

lemma unat_mask32: "k \<le> 32 \<Longrightarrow> unat (mask k :: 32 word) = 2 ^ k - 1"
proof -
  assume k: "k \<le> 32"
  have "uint (mask k :: 32 word) = mask k" using k by (simp add: uint_mask_eq min_def)
  then have "unat (mask k :: 32 word) = nat (mask k)" by (simp add: unat_eq_nat_uint)
  also have "\<dots> = 2 ^ k - 1" by (simp add: mask_eq_exp_minus_1 nat_diff_distrib nat_power_eq)
  finally show ?thesis .
qed

lemma aligned_room:
  fixes a :: nat
  assumes "a < 2 ^ n" "2 ^ k dvd a" "k \<le> n"
  shows "a + 2 ^ k \<le> 2 ^ n"
proof -
  obtain q where q: "a = 2 ^ k * q" using assms(2) by (auto simp: dvd_def)
  have p: "(2::nat) ^ n = 2 ^ k * 2 ^ (n - k)" using assms(3) by (simp flip: power_add)
  have "q < 2 ^ (n - k)" using assms(1) unfolding q p by simp
  then have "Suc q \<le> 2 ^ (n - k)" by simp
  then have "2 ^ k * Suc q \<le> 2 ^ k * 2 ^ (n - k)" by (rule mult_le_mono2)
  then show ?thesis unfolding q p by simp
qed

lemma unat_lt32: "unat (a :: 32 word) < 2 ^ 32"
  using unsigned_less [of a] by simp

lemma max_addr_unat:
  assumes "0 \<le> c" "c \<le> 32" "2 ^ nat (32 - c) dvd unat a"
  shows "unat (max_addr \<lparr>m_addr = a, m_mask = \<lparr>m_count = c\<rparr>\<rparr>) = unat a + 2 ^ nat (32 - c) - 1"
proof -
  let ?k = "nat (32 - c)"
  have k: "?k \<le> 32" using assms by simp
  have tb: "take_bit ?k a = 0"
    using assms(3) by (simp add: and_mask_dvd_nat take_bit_eq_mask)
  have "max_addr \<lparr>m_addr = a, m_mask = \<lparr>m_count = c\<rparr>\<rparr> = a OR mask ?k"
    using assms by (simp add: max_addr_def host_order_eq)
  also have "\<dots> = a + mask ?k"
    by (rule disjunctive_add_eq_or [symmetric]) (use tb in \<open>simp add: take_bit_eq_mask\<close>)
  finally have m: "max_addr \<lparr>m_addr = a, m_mask = \<lparr>m_count = c\<rparr>\<rparr> = a + mask ?k" .
  have room: "unat a + 2 ^ ?k \<le> 2 ^ 32"
    using aligned_room [OF unat_lt32 assms(3) k] .
  have "unat a + unat (mask ?k :: 32 word) < 2 ^ LENGTH(32)"
    using room by (simp add: unat_mask32 [OF k])
  then have "unat (a + mask ?k) = unat a + unat (mask ?k :: 32 word)"
    by (simp only: unat_add_lem)
  then show ?thesis by (simp add: m unat_mask32 [OF k])
qed

lemma div_mult_eq_iff:
  fixes x a :: nat
  assumes "2 ^ k dvd a"
  shows "x div 2 ^ k * 2 ^ k = a \<longleftrightarrow> a \<le> x \<and> x < a + 2 ^ k"
proof -
  let ?d = "(2::nat) ^ k"
  have d: "0 < ?d" by simp
  obtain q where q: "a = ?d * q" using assms by (auto simp: dvd_def)
  show ?thesis
  proof
    assume e: "x div ?d * ?d = a"
    have "x div ?d * ?d \<le> x" by simp
    moreover have "x < ?d + x div ?d * ?d" using d by (rule dividend_less_div_times)
    ultimately show "a \<le> x \<and> x < a + ?d" using e by simp
  next
    assume b: "a \<le> x \<and> x < a + ?d"
    then have "?d * q \<le> x" "x < ?d * Suc q" using q by simp_all
    then have "x div ?d = q" by (rule div_nat_eqI)
    then show "x div ?d * ?d = a" using q by simp
  qed
qed

lemma net_of_addr_unat:
  assumes "0 \<le> c" "c \<le> 32"
  shows "unat (m_addr (ip4_net_of A \<lparr>m_count = c\<rparr>)) = unat A div 2 ^ nat (32 - c) * 2 ^ nat (32 - c)"
  using assms by (simp add: ip4_net_of_def host_order_eq unat_and_not_mask)

lemma net_of_aligned:
  assumes "0 \<le> c" "c \<le> 32" "2 ^ nat (32 - c) dvd unat a"
  shows "ip4_net_of a \<lparr>m_count = c\<rparr> = \<lparr>m_addr = a, m_mask = \<lparr>m_count = c\<rparr>\<rparr>"
proof -
  have "unat (m_addr (ip4_net_of a \<lparr>m_count = c\<rparr>)) = unat a"
    using assms(3) by (simp add: net_of_addr_unat [OF assms(1,2)])
  then have "m_addr (ip4_net_of a \<lparr>m_count = c\<rparr>) = a"
    by (simp only: word_unat_eq_iff)
  then show ?thesis by (simp add: ip4_net_of_def)
qed

lemma net_contains_iff:
  assumes "0 \<le> c" "c \<le> 32" "2 ^ nat (32 - c) dvd unat a"
  shows "net_contains \<lparr>m_addr = a, m_mask = \<lparr>m_count = c\<rparr>\<rparr> x
         \<longleftrightarrow> unat a \<le> unat x \<and> unat x < unat a + 2 ^ nat (32 - c)"
proof -
  have "net_contains \<lparr>m_addr = a, m_mask = \<lparr>m_count = c\<rparr>\<rparr> x
        \<longleftrightarrow> unat (NOT (mask (nat (32 - c))) AND x) = unat a"
    using assms(1,2) by (simp add: net_contains_def host_order_eq word_unat_eq_iff)
  also have "\<dots> \<longleftrightarrow> unat a \<le> unat x \<and> unat x < unat a + 2 ^ nat (32 - c)"
    by (simp only: unat_and_not_mask div_mult_eq_iff [OF assms(3)])
  finally show ?thesis .
qed

lemma shrink_net_greedy:
  assumes "unat lo \<le> unat hi" "2 ^ w dvd unat lo" "w \<le> 32"
  shows "k \<le> w \<Longrightarrow> (\<forall>j. k < j \<and> j \<le> w \<longrightarrow> unat hi < unat lo + 2 ^ j - 1) \<Longrightarrow>
     \<exists>k'\<le>k. shrink_net lo hi \<lparr>m_addr = lo, m_mask = \<lparr>m_count = 32 - int k\<rparr>\<rparr>
               = Some \<lparr>m_addr = lo, m_mask = \<lparr>m_count = 32 - int k'\<rparr>\<rparr>
           \<and> unat lo + 2 ^ k' - 1 \<le> unat hi
           \<and> (\<forall>j. k' < j \<and> j \<le> w \<longrightarrow> unat hi < unat lo + 2 ^ j - 1)"
proof (induction k)
  case 0
  have "unat (max_addr \<lparr>m_addr = lo, m_mask = \<lparr>m_count = 32\<rparr>\<rparr>) = unat lo"
    using max_addr_unat [of 32 lo] by simp
  then have "\<not> max_addr \<lparr>m_addr = lo, m_mask = \<lparr>m_count = 32\<rparr>\<rparr> > hi"
    using assms(1) by (simp add: word_less_nat_alt)
  then have "shrink_net lo hi \<lparr>m_addr = lo, m_mask = \<lparr>m_count = 32\<rparr>\<rparr>
      = Some \<lparr>m_addr = lo, m_mask = \<lparr>m_count = 32\<rparr>\<rparr>"
    by (subst shrink_net.simps) simp
  then show ?case using 0 assms(1) by (intro exI [of _ 0]) simp
next
  case (Suc k)
  let ?N = "\<lparr>m_addr = lo, m_mask = \<lparr>m_count = 32 - int (Suc k)\<rparr>\<rparr>"
  have kw: "Suc k \<le> w" "k \<le> w" using Suc.prems by simp_all
  have al: "2 ^ Suc k dvd unat lo" "2 ^ k dvd unat lo"
    using power_le_dvd [OF assms(2) kw(1)] power_le_dvd [OF assms(2) kw(2)] by simp_all
  have c: "0 \<le> 32 - int (Suc k)" "32 - int (Suc k) \<le> 32" using kw assms(3) by simp_all
  have nk: "nat (32 - (32 - int (Suc k))) = Suc k" by simp
  have mx: "unat (max_addr ?N) = unat lo + 2 ^ Suc k - 1"
    using max_addr_unat [OF c, of lo] al(1) by (simp only: nk)
  show ?case
  proof (cases "max_addr ?N > hi")
    case True
    have big: "unat hi < unat lo + 2 ^ Suc k - 1"
      using True mx by (simp add: word_less_nat_alt)
    have sh: "mask_shift_right (m_mask ?N) 1 = \<lparr>m_count = 32 - int k\<rparr>"
      using mask_shift_right_one [OF c] by (simp add: min_def)
    have c': "0 \<le> 32 - int k" "32 - int k \<le> 32" using kw assms(3) by simp_all
    have nk': "nat (32 - (32 - int k)) = k" by simp
    have al': "2 ^ nat (32 - (32 - int k)) dvd unat lo" using al(2) by (simp only: nk')
    have nx: "ip4_net_of lo (mask_shift_right (m_mask ?N) 1) = \<lparr>m_addr = lo, m_mask = \<lparr>m_count = 32 - int k\<rparr>\<rparr>"
      unfolding sh by (rule net_of_aligned [OF c' al'])
    have step: "shrink_net lo hi ?N = shrink_net lo hi \<lparr>m_addr = lo, m_mask = \<lparr>m_count = 32 - int k\<rparr>\<rparr>"
      using True by (subst shrink_net.simps) (simp only: nx if_True)
    have "\<forall>j. k < j \<and> j \<le> w \<longrightarrow> unat hi < unat lo + 2 ^ j - 1"
    proof (intro allI impI)
      fix j assume j: "k < j \<and> j \<le> w"
      show "unat hi < unat lo + 2 ^ j - 1"
      proof (cases "j = Suc k")
        case True then show ?thesis using big by simp
      next
        case False then show ?thesis using j Suc.prems(2) by simp
      qed
    qed
    from Suc.IH [OF kw(2) this] obtain k' where
      "k' \<le> k" "shrink_net lo hi \<lparr>m_addr = lo, m_mask = \<lparr>m_count = 32 - int k\<rparr>\<rparr>
               = Some \<lparr>m_addr = lo, m_mask = \<lparr>m_count = 32 - int k'\<rparr>\<rparr>"
      "unat lo + 2 ^ k' - 1 \<le> unat hi"
      "\<forall>j. k' < j \<and> j \<le> w \<longrightarrow> unat hi < unat lo + 2 ^ j - 1"
      by blast
    then show ?thesis using step by (intro exI [of _ k']) simp
  next
    case False
    then have "shrink_net lo hi ?N = Some ?N"
      by (subst shrink_net.simps) simp
    moreover have "unat lo + 2 ^ Suc k - 1 \<le> unat hi"
      using False mx by (simp add: word_less_nat_alt)
    ultimately show ?thesis using Suc.prems(2) by (intro exI [of _ "Suc k"]) simp
  qed
qed

lemma greedy_net_facts:
  assumes g: "greedy (unat lo) (unat hi) k"
  defines "n \<equiv> \<lparr>m_addr = lo, m_mask = \<lparr>m_count = 32 - int k\<rparr>\<rparr>"
  shows "unat (max_addr n) = unat lo + 2 ^ k - 1"
    and "lo \<le> max_addr n" and "max_addr n \<le> hi"
    and "net_contains n x \<longleftrightarrow> lo \<le> x \<and> x \<le> max_addr n"
proof -
  have k: "k \<le> 32" and d: "2 ^ k dvd unat lo" and f: "unat lo + 2 ^ k - 1 \<le> unat hi"
    using g by (simp_all add: greedy_def)
  have c: "0 \<le> 32 - int k" "32 - int k \<le> 32" using k by simp_all
  have nk: "nat (32 - (32 - int k)) = k" by simp
  have d': "2 ^ nat (32 - (32 - int k)) dvd unat lo" using d by (simp only: nk)
  show mx: "unat (max_addr n) = unat lo + 2 ^ k - 1"
    unfolding n_def using max_addr_unat [OF c d'] by (simp only: nk)
  have p: "0 < (2::nat) ^ k" by simp
  show "lo \<le> max_addr n" unfolding word_le_nat_alt mx using p by linarith
  show "max_addr n \<le> hi" unfolding word_le_nat_alt mx using f by linarith
  have "net_contains n x \<longleftrightarrow> unat lo \<le> unat x \<and> unat x < unat lo + 2 ^ k"
    unfolding n_def using net_contains_iff [OF c d', of x] by (simp only: nk)
  also have "\<dots> \<longleftrightarrow> lo \<le> x \<and> x \<le> max_addr n"
    unfolding word_le_nat_alt mx using p by linarith
  finally show "net_contains n x \<longleftrightarrow> lo \<le> x \<and> x \<le> max_addr n" .
qed

lemma range_empty_is_empty: "is_empty ip4_range_empty"
  by code_simp

lemma extract_next_network_greedy:
  assumes "lo \<le> hi"
  shows "\<exists>k n. greedy (unat lo) (unat hi) k
           \<and> n = \<lparr>m_addr = lo, m_mask = \<lparr>m_count = 32 - int k\<rparr>\<rparr>
           \<and> extract_next_network \<lparr>i_min = lo, i_max = hi\<rparr>
               = Some (max_addr n = hi, n,
                       if max_addr n = hi then ip4_range_empty
                       else \<lparr>i_min = max_addr n + 1, i_max = hi\<rparr>)"
proof -
  let ?w = "lsb_count lo False"
  have w: "0 \<le> ?w" "?w \<le> 32" "2 ^ nat ?w dvd unat lo"
    and wmax: "?w < 32 \<longrightarrow> \<not> 2 ^ Suc (nat ?w) dvd unat lo"
    using lsb_count_props [of lo] by simp_all
  have ul: "unat lo \<le> unat hi" using assms by (simp add: word_le_nat_alt)
  have w32: "nat ?w \<le> 32" using w by simp
  have c: "0 \<le> 32 - ?w" "32 - ?w \<le> 32" using w by simp_all
  have cw: "32 - int (nat ?w) = 32 - ?w" using w by simp
  have m: "ip4_mask_of (32 - ?w) = \<lparr>m_count = 32 - ?w\<rparr>"
    using w by (simp add: ip4_mask_of_def bounded_count_def)
  have nw: "nat (32 - (32 - ?w)) = nat ?w" by simp
  have d': "2 ^ nat (32 - (32 - ?w)) dvd unat lo" using w(3) by (simp only: nw)
  have n0: "ip4_net_of lo (ip4_mask_of (32 - ?w)) = \<lparr>m_addr = lo, m_mask = \<lparr>m_count = 32 - int (nat ?w)\<rparr>\<rparr>"
    unfolding m cw by (rule net_of_aligned [OF c d'])
  obtain k where k: "k \<le> nat ?w"
    and sh: "shrink_net lo hi \<lparr>m_addr = lo, m_mask = \<lparr>m_count = 32 - int (nat ?w)\<rparr>\<rparr>
               = Some \<lparr>m_addr = lo, m_mask = \<lparr>m_count = 32 - int k\<rparr>\<rparr>"
    and fit: "unat lo + 2 ^ k - 1 \<le> unat hi"
    and big: "\<forall>j. k < j \<and> j \<le> nat ?w \<longrightarrow> unat hi < unat lo + 2 ^ j - 1"
    using shrink_net_greedy [OF ul w(3) w32, of "nat ?w"] by auto
  let ?n = "\<lparr>m_addr = lo, m_mask = \<lparr>m_count = 32 - int k\<rparr>\<rparr>"
  have g: "greedy (unat lo) (unat hi) k"
    unfolding greedy_def
  proof (intro conjI allI impI)
    show "k \<le> 32" using k w32 by simp
    show "2 ^ k dvd unat lo" using power_le_dvd [OF w(3) k] .
    show "unat lo + 2 ^ k - 1 \<le> unat hi" by (rule fit)
  next
    fix j assume j: "j \<le> 32 \<and> 2 ^ j dvd unat lo \<and> unat lo + 2 ^ j - 1 \<le> unat hi"
    show "j \<le> k"
    proof (rule ccontr)
      assume "\<not> j \<le> k"
      then have kj: "k < j" by simp
      show False
      proof (cases "j \<le> nat ?w")
        case True
        then show ?thesis using big kj j by auto
      next
        case False
        then have "Suc (nat ?w) \<le> j" by simp
        then have "2 ^ Suc (nat ?w) dvd unat lo"
          using j power_le_dvd by blast
        moreover have "?w < 32" using False j w(1) by linarith
        ultimately show ?thesis using wmax by simp
      qed
    qed
  qed
  have ne: "\<not> is_empty \<lparr>i_min = lo, i_max = hi\<rparr>"
    using assms by (simp add: is_empty_def)
  have e: "is_empty (if max_addr ?n = hi then ip4_range_empty else \<lparr>i_min = max_addr ?n + 1, i_max = hi\<rparr>)
           = (max_addr ?n = hi)"
  proof (cases "max_addr ?n = hi")
    case True
    then show ?thesis by (simp add: range_empty_is_empty)
  next
    case False
    have "max_addr ?n \<le> hi" using greedy_net_facts(3) [OF g] .
    then have lt: "unat (max_addr ?n) < unat hi" using False by (simp add: word_le_nat_alt word_unat_eq_iff)
    then have "unat (max_addr ?n) + unat (1 :: 32 word) < 2 ^ LENGTH(32)"
      using unat_lt32 [of hi] by simp
    then have "unat (max_addr ?n + 1) = unat (max_addr ?n) + 1"
      by (simp only: unat_add_lem) simp
    then have "max_addr ?n + 1 \<le> hi" using lt by (simp add: word_le_nat_alt)
    then show ?thesis using False by (simp add: is_empty_def)
  qed
  define R where "R = (\<lambda>net. if max_addr net = hi then ip4_range_empty
                              else \<lparr>i_min = max_addr net + 1, i_max = hi\<rparr>)"
  have "extract_next_network \<lparr>i_min = lo, i_max = hi\<rparr> = Some (is_empty (R ?n), ?n, R ?n)"
    by (simp only: extract_next_network_def ne if_False Let_def interval.simps n0 sh
          option.case R_def)
  also have "\<dots> = Some (max_addr ?n = hi, ?n, R ?n)"
    using e by (simp only: R_def)
  finally have "extract_next_network \<lparr>i_min = lo, i_max = hi\<rparr>
               = Some (max_addr ?n = hi, ?n,
                       if max_addr ?n = hi then ip4_range_empty
                       else \<lparr>i_min = max_addr ?n + 1, i_max = hi\<rparr>)"
    by (simp only: R_def)
  then show ?thesis using g by blast
qed

lemma word_succ_below:
  fixes x hi :: "32 word"
  assumes "x \<le> hi" "x \<noteq> hi"
  shows "unat (x + 1) = Suc (unat x)" and "x + 1 \<le> hi" and "x < x + 1"
proof -
  have lt: "unat x < unat hi" using assms by (simp add: word_le_nat_alt word_unat_eq_iff)
  then have "unat x + unat (1 :: 32 word) < 2 ^ LENGTH(32)"
    using unat_lt32 [of hi] by simp
  then have "unat (x + 1) = unat x + unat (1 :: 32 word)"
    by (simp only: unat_add_lem)
  then show u: "unat (x + 1) = Suc (unat x)" by simp
  show "x + 1 \<le> hi" using lt u by (simp add: word_le_nat_alt)
  show "x < x + 1" using u by (simp add: word_less_nat_alt)
qed

lemma greedy_net_not_end:
  assumes "greedy (unat lo) hi k"
  shows "\<not> (lo = ip4_MAX \<and> 32 - int k = 0)"
proof
  assume a: "lo = ip4_MAX \<and> 32 - int k = 0"
  then have "k = 32" by simp
  then have "2 ^ 32 dvd unat lo" using assms by (simp add: greedy_def)
  then have "unat lo = 0" using unat_lt32 [of lo] by (auto simp: dvd_def)
  then have "lo = 0" by (simp add: unat_eq_zero)
  moreover have "ip4_MAX \<noteq> 0" by code_simp
  ultimately show False using a by simp
qed

lemma copy_nets_end: "copy_nets generator_end = Some []"
  by (subst copy_nets.simps) (simp add: generator_eq_def)

lemma generator_incr_empty:
  "generator_incr \<lparr>m_range = ip4_range_empty, m_data = d\<rparr> = Some generator_end"
  by (simp add: generator_incr_def extract_next_network_def range_empty_is_empty generator_end_def)

lemma generator_incr_any:
  "generator_incr \<lparr>m_range = r, m_data = d\<rparr> = net_begin r"
  by (simp add: generator_incr_def net_begin_def)

lemma generate_networks_step:
  assumes "lo \<le> hi"
  shows "\<exists>k n. greedy (unat lo) (unat hi) k
           \<and> n = \<lparr>m_addr = lo, m_mask = \<lparr>m_count = 32 - int k\<rparr>\<rparr>
           \<and> generate_networks \<lparr>i_min = lo, i_max = hi\<rparr>
               = (if max_addr n = hi then Some [n]
                  else Option.bind (generate_networks \<lparr>i_min = max_addr n + 1, i_max = hi\<rparr>)
                         (\<lambda>ns. Some (n # ns)))"
proof -
  obtain k n where g: "greedy (unat lo) (unat hi) k"
    and n: "n = \<lparr>m_addr = lo, m_mask = \<lparr>m_count = 32 - int k\<rparr>\<rparr>"
    and x: "extract_next_network \<lparr>i_min = lo, i_max = hi\<rparr>
               = Some (max_addr n = hi, n,
                       if max_addr n = hi then ip4_range_empty
                       else \<lparr>i_min = max_addr n + 1, i_max = hi\<rparr>)"
    using extract_next_network_greedy [OF assms] by blast
  define r' where "r' = (if max_addr n = hi then ip4_range_empty
                       else \<lparr>i_min = max_addr n + 1, i_max = hi\<rparr>)"
  have b: "net_begin \<lparr>i_min = lo, i_max = hi\<rparr> = Some \<lparr>m_range = r', m_data = n\<rparr>"
    by (simp add: net_begin_def generator_incr_def x r'_def)
  have ne: "\<not> generator_eq \<lparr>m_range = r', m_data = n\<rparr> generator_end"
    using greedy_net_not_end [OF g]
    by (auto simp: generator_eq_def generator_end_def ip4_net_empty_def n)
  have c: "copy_nets \<lparr>m_range = r', m_data = n\<rparr>
           = Option.bind (net_begin r') (\<lambda>g'. Option.bind (copy_nets g') (\<lambda>ns. Some (n # ns)))"
    using ne by (subst copy_nets.simps) (simp add: generator_incr_any)
  have gn: "generate_networks \<lparr>i_min = lo, i_max = hi\<rparr>
           = Option.bind (net_begin r') (\<lambda>g'. Option.bind (copy_nets g') (\<lambda>ns. Some (n # ns)))"
    by (simp add: generate_networks_def b c)
  have "generate_networks \<lparr>i_min = lo, i_max = hi\<rparr>
               = (if max_addr n = hi then Some [n]
                  else Option.bind (generate_networks \<lparr>i_min = max_addr n + 1, i_max = hi\<rparr>)
                         (\<lambda>ns. Some (n # ns)))"
  proof (cases "max_addr n = hi")
    case True
    then have "net_begin r' = Some generator_end"
      by (simp add: r'_def net_begin_def generator_incr_empty)
    then show ?thesis using True by (simp add: gn copy_nets_end)
  next
    case False
    then have "r' = \<lparr>i_min = max_addr n + 1, i_max = hi\<rparr>" by (simp add: r'_def)
    then show ?thesis using False unfolding gn by (simp add: generate_networks_def)
  qed
  then show ?thesis using g n by blast
qed

lemma generate_networks_tiling:
  "lo \<le> hi \<Longrightarrow> \<exists>ns. generate_networks \<lparr>i_min = lo, i_max = hi\<rparr> = Some ns \<and> tiling lo hi ns"
proof (induction "unat hi - unat lo" arbitrary: lo rule: less_induct)
  case less
  obtain k n where g: "greedy (unat lo) (unat hi) k"
    and n: "n = \<lparr>m_addr = lo, m_mask = \<lparr>m_count = 32 - int k\<rparr>\<rparr>"
    and s: "generate_networks \<lparr>i_min = lo, i_max = hi\<rparr>
               = (if max_addr n = hi then Some [n]
                  else Option.bind (generate_networks \<lparr>i_min = max_addr n + 1, i_max = hi\<rparr>)
                         (\<lambda>ns. Some (n # ns)))"
    using generate_networks_step [OF less.prems] by blast
  show ?case
  proof (cases "max_addr n = hi")
    case True
    then have "generate_networks \<lparr>i_min = lo, i_max = hi\<rparr> = Some [n]" using s by simp
    moreover have "tiling lo hi [n]" using g n True by auto
    ultimately show ?thesis by blast
  next
    case False
    have mx: "unat (max_addr n) = unat lo + 2 ^ k - 1" and le: "max_addr n \<le> hi"
      using greedy_net_facts(1,3) [OF g] n by simp_all
    have u: "unat (max_addr n + 1) = Suc (unat (max_addr n))" and le': "max_addr n + 1 \<le> hi"
      using word_succ_below [OF le False] by simp_all
    have p: "0 < (2::nat) ^ k" by simp
    have "unat (max_addr n + 1) \<le> unat hi" using le' by (simp add: word_le_nat_alt)
    then have "unat hi - unat (max_addr n + 1) < unat hi - unat lo"
      unfolding u mx using p by linarith
    from less.hyps [OF this le'] obtain ns where
      ns: "generate_networks \<lparr>i_min = max_addr n + 1, i_max = hi\<rparr> = Some ns"
          "tiling (max_addr n + 1) hi ns" by blast
    have "generate_networks \<lparr>i_min = lo, i_max = hi\<rparr> = Some (n # ns)"
      using s False ns(1) by simp
    moreover have "tiling lo hi (n # ns)" using g n False ns(2) by auto
    ultimately show ?thesis by blast
  qed
qed

lemma tiling_head:
  assumes "tiling lo hi (n # ns)"
  shows "\<exists>k. greedy (unat lo) (unat hi) k
    \<and> n = \<lparr>m_addr = lo, m_mask = \<lparr>m_count = 32 - int k\<rparr>\<rparr>
    \<and> lo \<le> max_addr n \<and> max_addr n \<le> hi
    \<and> (\<forall>x. net_contains n x \<longleftrightarrow> lo \<le> x \<and> x \<le> max_addr n)
    \<and> unat (max_addr n) = unat lo + 2 ^ k - 1
    \<and> valid_net n
    \<and> (max_addr n = hi \<longrightarrow> ns = [])
    \<and> (max_addr n \<noteq> hi \<longrightarrow> tiling (max_addr n + 1) hi ns)"
proof -
  from assms obtain k where g: "greedy (unat lo) (unat hi) k"
    and n: "n = \<lparr>m_addr = lo, m_mask = \<lparr>m_count = 32 - int k\<rparr>\<rparr>"
    and r: "if max_addr n = hi then ns = [] else tiling (max_addr n + 1) hi ns"
    by auto
  have k: "k \<le> 32" and d: "2 ^ k dvd unat lo" using g by (simp_all add: greedy_def)
  have c: "0 \<le> 32 - int k" "32 - int k \<le> 32" using k by simp_all
  have d': "2 ^ nat (32 - (32 - int k)) dvd unat lo" using d by simp
  have v: "valid_net n"
    unfolding valid_net_def n using c net_of_aligned [OF c d'] by simp
  show ?thesis
    using g n greedy_net_facts [OF g] v r unfolding n by (intro exI [of _ k]) presburger
qed

lemma tiling_bounds:
  "tiling lo hi ns \<Longrightarrow>
     lo \<le> hi \<and> ns \<noteq> [] \<and> m_addr (hd ns) = lo
     \<and> (\<forall>n\<in>set ns. lo \<le> m_addr n \<and> m_addr n \<le> max_addr n \<and> max_addr n \<le> hi \<and> valid_net n)"
proof (induction ns arbitrary: lo)
  case Nil
  then show ?case by simp
next
  case (Cons n ns)
  obtain k where
    n: "n = \<lparr>m_addr = lo, m_mask = \<lparr>m_count = 32 - int k\<rparr>\<rparr>"
    and b: "lo \<le> max_addr n" "max_addr n \<le> hi" and v: "valid_net n"
    and e: "max_addr n = hi \<Longrightarrow> ns = []"
    and t: "max_addr n \<noteq> hi \<Longrightarrow> tiling (max_addr n + 1) hi ns"
    using tiling_head [OF Cons.prems] by blast
  have a: "m_addr n = lo" using n by simp
  have rest: "\<forall>n'\<in>set ns. lo \<le> m_addr n' \<and> m_addr n' \<le> max_addr n' \<and> max_addr n' \<le> hi \<and> valid_net n'"
  proof (cases "max_addr n = hi")
    case True
    then show ?thesis using e by simp
  next
    case False
    have "max_addr n < max_addr n + 1" using word_succ_below(3) [OF b(2) False] .
    then have "lo \<le> max_addr n + 1" using b(1) by simp
    then show ?thesis using Cons.IH [OF t [OF False]] by auto
  qed
  show ?case using a b v rest by auto
qed

lemma tiling_union:
  "tiling lo hi ns \<Longrightarrow> (\<exists>n\<in>set ns. net_contains n x) \<longleftrightarrow> lo \<le> x \<and> x \<le> hi"
proof (induction ns arbitrary: lo)
  case Nil
  then show ?case by simp
next
  case (Cons n ns)
  obtain k where
    b: "lo \<le> max_addr n" "max_addr n \<le> hi"
    and c: "\<And>x. net_contains n x \<longleftrightarrow> lo \<le> x \<and> x \<le> max_addr n"
    and e: "max_addr n = hi \<Longrightarrow> ns = []"
    and t: "max_addr n \<noteq> hi \<Longrightarrow> tiling (max_addr n + 1) hi ns"
    using tiling_head [OF Cons.prems] by blast
  show ?case
  proof (cases "max_addr n = hi")
    case True
    then show ?thesis using e c by simp
  next
    case False
    have u: "unat (max_addr n + 1) = Suc (unat (max_addr n))"
      using word_succ_below(1) [OF b(2) False] .
    have ih: "(\<exists>n\<in>set ns. net_contains n x) \<longleftrightarrow> max_addr n + 1 \<le> x \<and> x \<le> hi"
      using Cons.IH [OF t [OF False]] .
    have "(\<exists>n'\<in>set (n # ns). net_contains n' x)
          \<longleftrightarrow> (lo \<le> x \<and> x \<le> max_addr n) \<or> (max_addr n + 1 \<le> x \<and> x \<le> hi)"
      using c ih by simp
    also have "\<dots> \<longleftrightarrow> lo \<le> x \<and> x \<le> hi"
      using b unfolding word_le_nat_alt u by linarith
    finally show ?thesis .
  qed
qed

lemma tiling_sorted:
  "tiling lo hi ns \<Longrightarrow> sorted_wrt (\<lambda>n n'. max_addr n < m_addr n') ns"
proof (induction ns arbitrary: lo)
  case Nil
  then show ?case by simp
next
  case (Cons n ns)
  obtain k where
    b: "lo \<le> max_addr n" "max_addr n \<le> hi"
    and e: "max_addr n = hi \<Longrightarrow> ns = []"
    and t: "max_addr n \<noteq> hi \<Longrightarrow> tiling (max_addr n + 1) hi ns"
    using tiling_head [OF Cons.prems] by blast
  show ?case
  proof (cases "max_addr n = hi")
    case True
    then show ?thesis using e by simp
  next
    case False
    have lt: "max_addr n < max_addr n + 1" using word_succ_below(3) [OF b(2) False] .
    have "\<forall>n'\<in>set ns. max_addr n + 1 \<le> m_addr n'"
      using tiling_bounds [OF t [OF False]] by simp
    then have "\<forall>n'\<in>set ns. max_addr n < m_addr n'" using lt by auto
    then show ?thesis using Cons.IH [OF t [OF False]] by simp
  qed
qed

lemma tiling_successive:
  "tiling lo hi ns \<Longrightarrow>
     successively (\<lambda>n n'. max_addr n \<noteq> ip4_MAX \<and> m_addr n' = max_addr n + 1) ns"
proof (induction ns arbitrary: lo)
  case Nil
  then show ?case by simp
next
  case (Cons n ns)
  obtain k where
    b: "lo \<le> max_addr n" "max_addr n \<le> hi"
    and e: "max_addr n = hi \<Longrightarrow> ns = []"
    and t: "max_addr n \<noteq> hi \<Longrightarrow> tiling (max_addr n + 1) hi ns"
    using tiling_head [OF Cons.prems] by blast
  show ?case
  proof (cases "max_addr n = hi")
    case True
    then show ?thesis using e by simp
  next
    case False
    have tb: "ns \<noteq> []" "m_addr (hd ns) = max_addr n + 1"
      using tiling_bounds [OF t [OF False]] by simp_all
    have lt: "max_addr n < hi" using b(2) False by simp
    have "max_addr n \<noteq> ip4_MAX"
    proof
      assume "max_addr n = ip4_MAX"
      then have "hi \<le> max_addr n" by (simp add: ip4_MAX_def)
      then show False using lt by simp
    qed
    then show ?thesis
      using Cons.IH [OF t [OF False]] tb by (cases ns) simp_all
  qed
qed

lemma greedy_not_mergeable:
  assumes g: "greedy (unat lo) (unat hi) k"
    and n: "n = \<lparr>m_addr = lo, m_mask = \<lparr>m_count = 32 - int k\<rparr>\<rparr>"
    and ne: "max_addr n \<noteq> hi"
    and g': "greedy (unat (max_addr n + 1)) (unat hi) k'"
    and n': "n' = \<lparr>m_addr = max_addr n + 1, m_mask = \<lparr>m_count = 32 - int k'\<rparr>\<rparr>"
  shows "\<not> mergeable n n'"
proof
  assume "mergeable n n'"
  then obtain A C where
    m: "\<And>a. net_contains (ip4_net_of A (ip4_mask_of C)) a \<longleftrightarrow> net_contains n a \<or> net_contains n' a"
    unfolding mergeable_def by blast
  define c where "c = bounded_count C"
  define K where "K = nat (32 - c)"
  define B where "B = m_addr (ip4_net_of A \<lparr>m_count = c\<rparr>)"
  have c: "0 \<le> c" "c \<le> 32" by (simp_all add: c_def bounded_count_def)
  have K32: "K \<le> 32" using c by (simp add: K_def)
  have N: "ip4_net_of A (ip4_mask_of C) = \<lparr>m_addr = B, m_mask = \<lparr>m_count = c\<rparr>\<rparr>"
    by (simp add: ip4_net_of_def ip4_mask_of_def B_def c_def)
  have uB: "unat B = unat A div 2 ^ K * 2 ^ K"
    unfolding B_def K_def by (rule net_of_addr_unat [OF c])
  then have dB: "2 ^ nat (32 - c) dvd unat B" by (simp add: K_def)
  have cN: "\<And>x. net_contains \<lparr>m_addr = B, m_mask = \<lparr>m_count = c\<rparr>\<rparr> x
              \<longleftrightarrow> unat B \<le> unat x \<and> unat x < unat B + 2 ^ K"
    unfolding K_def by (rule net_contains_iff [OF c dB])
  have mN: "unat (max_addr \<lparr>m_addr = B, m_mask = \<lparr>m_count = c\<rparr>\<rparr>) = unat B + 2 ^ K - 1"
    unfolding K_def by (rule max_addr_unat [OF c dB])
  have f: "unat (max_addr n) = unat lo + 2 ^ k - 1" "max_addr n \<le> hi"
    "\<And>x. net_contains n x \<longleftrightarrow> lo \<le> x \<and> x \<le> max_addr n"
    using greedy_net_facts [OF g] unfolding n by blast+
  have f': "unat (max_addr n') = unat (max_addr n + 1) + 2 ^ k' - 1" "max_addr n' \<le> hi"
    "\<And>x. net_contains n' x \<longleftrightarrow> max_addr n + 1 \<le> x \<and> x \<le> max_addr n'"
    using greedy_net_facts [OF g'] unfolding n' by blast+
  have u: "unat (max_addr n + 1) = Suc (unat (max_addr n))"
    using word_succ_below(1) [OF f(2) ne] .
  have p: "0 < (2::nat) ^ k" "0 < (2::nat) ^ k'" "0 < (2::nat) ^ K" by simp_all
  have cn: "\<And>x. net_contains n x \<longleftrightarrow> unat lo \<le> unat x \<and> unat x \<le> unat lo + 2 ^ k - 1"
    using f(3) f(1) by (simp add: word_le_nat_alt)
  have cn': "\<And>x. net_contains n' x \<longleftrightarrow> unat lo + 2 ^ k \<le> unat x \<and> unat x \<le> unat lo + 2 ^ k + 2 ^ k' - 1"
    using f'(3) f'(1) u f(1) p by (simp add: word_le_nat_alt)
  have mem: "\<And>x :: 32 word. (unat B \<le> unat x \<and> unat x < unat B + 2 ^ K)
        \<longleftrightarrow> (unat lo \<le> unat x \<and> unat x \<le> unat lo + 2 ^ k - 1)
          \<or> (unat lo + 2 ^ k \<le> unat x \<and> unat x \<le> unat lo + 2 ^ k + 2 ^ k' - 1)"
    using m unfolding N cN cn cn' by blast
  have hi_b: "unat lo + 2 ^ k + 2 ^ k' - 1 \<le> unat hi"
    using f'(1,2) u f(1) p by (simp add: word_le_nat_alt)
  have 1: "unat lo \<le> unat B" using mem [of B] p by linarith
  have 2: "unat B \<le> unat lo" using mem [of lo] p by linarith
  have B: "unat B = unat lo" using 1 2 by simp
  have 3: "unat lo + 2 ^ k + 2 ^ k' - 1 < unat lo + 2 ^ K"
    using mem [of "max_addr n'"] f'(1) u f(1) p unfolding B by linarith
  have 4: "unat lo + 2 ^ K - 1 \<le> unat hi"
    using mem [of "max_addr \<lparr>m_addr = B, m_mask = \<lparr>m_count = c\<rparr>\<rparr>"] mN hi_b p unfolding B by linarith
  have "(2::nat) ^ k < 2 ^ K" using 3 p by linarith
  then have kK: "k < K" by simp
  have "2 ^ K dvd unat lo" using uB B by (metis dvd_triv_right)
  then have "K \<le> k" using g K32 4 unfolding greedy_def by blast
  then show False using kK by simp
qed

lemma tiling_minimal:
  "tiling lo hi ns \<Longrightarrow> successively (\<lambda>n n'. \<not> mergeable n n') ns"
proof (induction ns arbitrary: lo)
  case Nil
  then show ?case by simp
next
  case (Cons n ns)
  obtain k where g: "greedy (unat lo) (unat hi) k"
    and n: "n = \<lparr>m_addr = lo, m_mask = \<lparr>m_count = 32 - int k\<rparr>\<rparr>"
    and e: "max_addr n = hi \<Longrightarrow> ns = []"
    and t: "max_addr n \<noteq> hi \<Longrightarrow> tiling (max_addr n + 1) hi ns"
    using tiling_head [OF Cons.prems] by blast
  show ?case
  proof (cases "max_addr n = hi")
    case True
    then show ?thesis using e by simp
  next
    case False
    from t [OF False] obtain n' ns' where ns: "ns = n' # ns'"
      by (cases ns) auto
    obtain k' where g': "greedy (unat (max_addr n + 1)) (unat hi) k'"
      and n': "n' = \<lparr>m_addr = max_addr n + 1, m_mask = \<lparr>m_count = 32 - int k'\<rparr>\<rparr>"
      using tiling_head [OF t [OF False, unfolded ns]] by blast
    have "\<not> mergeable n n'" by (rule greedy_not_mergeable [OF g n False g' n'])
    then show ?thesis using Cons.IH [OF t [OF False]] ns by simp
  qed
qed

lemma tiling_contains:
  "tiling lo hi ns \<Longrightarrow>
     \<forall>n\<in>set ns. \<forall>x. net_contains n x \<longleftrightarrow> m_addr n \<le> x \<and> x \<le> max_addr n"
proof (induction ns arbitrary: lo)
  case Nil
  then show ?case by simp
next
  case (Cons n ns)
  obtain k where n: "n = \<lparr>m_addr = lo, m_mask = \<lparr>m_count = 32 - int k\<rparr>\<rparr>"
    and c: "\<forall>x. net_contains n x \<longleftrightarrow> lo \<le> x \<and> x \<le> max_addr n"
    and e: "max_addr n = hi \<Longrightarrow> ns = []"
    and t: "max_addr n \<noteq> hi \<Longrightarrow> tiling (max_addr n + 1) hi ns"
    using tiling_head [OF Cons.prems] by blast
  have a: "m_addr n = lo" using n by simp
  have "\<forall>n'\<in>set ns. \<forall>x. net_contains n' x \<longleftrightarrow> m_addr n' \<le> x \<and> x \<le> max_addr n'"
  proof (cases "max_addr n = hi")
    case True
    then show ?thesis using e by simp
  next
    case False
    then show ?thesis using Cons.IH [OF t] by simp
  qed
  then show ?case using c a by simp
qed

lemma sorted_disjoint:
  assumes s: "sorted_wrt (\<lambda>n n'. max_addr n < m_addr n') ns"
    and c: "\<forall>n\<in>set ns. \<forall>x. net_contains n x \<longleftrightarrow> m_addr n \<le> x \<and> x \<le> max_addr n"
    and ij: "i < j" "j < length ns"
  shows "\<not> (net_contains (ns ! i) a \<and> net_contains (ns ! j) a)"
proof
  assume b: "net_contains (ns ! i) a \<and> net_contains (ns ! j) a"
  have "max_addr (ns ! i) < m_addr (ns ! j)"
    using s ij by (simp add: sorted_wrt_iff_nth_less)
  moreover have "a \<le> max_addr (ns ! i)" "m_addr (ns ! j) \<le> a"
    using b c ij by simp_all
  ultimately show False by simp
qed

section \<open>The emitted networks as numeric blocks\<close>

lemma host_order_unat:
  assumes "0 \<le> c" "c \<le> 32"
  shows "unat (host_order \<lparr>m_count = c\<rparr>) = 2 ^ 32 - 2 ^ nat (32 - c)"
proof -
  let ?k = "nat (32 - c)"
  have k: "?k \<le> 32" using assms by simp
  have "unat (NOT (mask ?k) AND (- 1 :: 32 word)) = unat (- 1 :: 32 word) div 2 ^ ?k * 2 ^ ?k"
    by (rule unat_and_not_mask)
  moreover have "unat (- 1 :: 32 word) = 2 ^ 32 - 1"
  proof -
    have "mask 32 = (- 1 :: 32 word)" by (simp add: mask_eq_exp_minus_1)
    then show ?thesis using unat_mask32 [of 32] by simp
  qed
  moreover have "(2 ^ 32 - 1) div 2 ^ ?k * 2 ^ ?k = (2::nat) ^ 32 - 2 ^ ?k"
  proof -
    define D :: nat where "D = 2 ^ ?k"
    have d: "0 < D" by (simp add: D_def)
    have p: "(2::nat) ^ 32 = D * 2 ^ (32 - ?k)" using k by (simp add: D_def flip: power_add)
    have "0 < (2::nat) ^ (32 - ?k)" by simp
    then obtain q where q: "(2::nat) ^ (32 - ?k) = Suc q" by (metis Suc_pred)
    have "(D * Suc q - 1) div D = q"
      using d by (intro div_nat_eqI) (simp_all add: algebra_simps)
    then have "(D * Suc q - 1) div D * D = D * Suc q - D" by (simp add: algebra_simps)
    then show ?thesis unfolding p q D_def .
  qed
  ultimately show ?thesis using assms by (simp add: host_order_eq)
qed

lemma greedy_block:
  fixes lo hi :: ip4_addr
  assumes g: "greedy (unat lo) (unat hi) k"
  defines "n \<equiv> \<lparr>m_addr = lo, m_mask = \<lparr>m_count = 32 - int k\<rparr>\<rparr>"
  shows "net_first n = unat lo" "net_size n = 2 ^ k"
    "0 \<le> m_count (m_mask n)" "m_count (m_mask n) \<le> 32"
    "cidr_block (net_first n) (net_size n)"
    "unat (host_order (m_mask n)) = 2 ^ 32 - net_size n"
    "net_contains n x \<longleftrightarrow> in_block n x"
    "unat (max_addr n) = net_first n + net_size n - 1"
proof -
  have k: "k \<le> 32" and d: "2 ^ k dvd unat lo" using g by (simp_all add: greedy_def)
  have c: "0 \<le> 32 - int k" "32 - int k \<le> 32" using k by simp_all
  have nk: "nat (32 - (32 - int k)) = k" by simp
  show f: "net_first n = unat lo" by (simp add: net_first_def n_def)
  show s: "net_size n = 2 ^ k" by (simp add: net_size_def n_def)
  show "0 \<le> m_count (m_mask n)" "m_count (m_mask n) \<le> 32" using k by (simp_all add: n_def)
  have "unat lo + 2 ^ k \<le> 2 ^ 32" using aligned_room [OF unat_lt32 d k] .
  then show "cidr_block (net_first n) (net_size n)"
    unfolding f s cidr_block_def using k d by blast
  show "unat (host_order (m_mask n)) = 2 ^ 32 - net_size n"
    unfolding s using host_order_unat [OF c] by (simp add: n_def)
  have p: "0 < (2::nat) ^ k" by simp
  have m: "unat (max_addr n) = unat lo + 2 ^ k - 1"
    unfolding n_def by (rule greedy_net_facts(1) [OF g])
  show "unat (max_addr n) = net_first n + net_size n - 1" unfolding f s by (rule m)
  have "net_contains n x \<longleftrightarrow> lo \<le> x \<and> x \<le> max_addr n"
    unfolding n_def by (rule greedy_net_facts(4) [OF g])
  also have "\<dots> \<longleftrightarrow> in_block n x"
    unfolding in_block_def f s word_le_nat_alt m using p by linarith
  finally show "net_contains n x \<longleftrightarrow> in_block n x" .
qed

lemma greedy_no_larger_block:
  fixes lo hi :: ip4_addr
  assumes g: "greedy (unat lo) (unat hi) k" and b: "unat lo + 2 ^ k + 2 ^ k' - 1 \<le> unat hi"
  shows "\<not> cidr_block (unat lo) (2 ^ k + 2 ^ k')"
proof
  assume "cidr_block (unat lo) (2 ^ k + 2 ^ k')"
  then obtain K where K: "K \<le> 32" "(2::nat) ^ k + 2 ^ k' = 2 ^ K" "2 ^ K dvd unat lo"
    unfolding cidr_block_def by blast
  have "unat lo + 2 ^ K - 1 \<le> unat hi" using b K(2) by simp
  then have "K \<le> k" using g K(1,3) unfolding greedy_def by blast
  then have "(2::nat) ^ K \<le> 2 ^ k" by simp
  moreover have "(2::nat) ^ k < 2 ^ K" using K(2) [symmetric] by simp
  ultimately show False by simp
qed

lemma tiling_blocks:
  "tiling lo hi ns \<Longrightarrow>
     (\<forall>n\<in>set ns. 0 \<le> m_count (m_mask n) \<and> m_count (m_mask n) \<le> 32
          \<and> cidr_block (net_first n) (net_size n)
          \<and> unat (host_order (m_mask n)) = 2 ^ 32 - net_size n
          \<and> (\<forall>x. net_contains n x \<longleftrightarrow> in_block n x)
          \<and> unat (max_addr n) = net_first n + net_size n - 1)"
proof (induction ns arbitrary: lo)
  case Nil
  then show ?case by simp
next
  case (Cons n ns)
  obtain k where g: "greedy (unat lo) (unat hi) k"
    and n: "n = \<lparr>m_addr = lo, m_mask = \<lparr>m_count = 32 - int k\<rparr>\<rparr>"
    and e: "max_addr n = hi \<Longrightarrow> ns = []"
    and t: "max_addr n \<noteq> hi \<Longrightarrow> tiling (max_addr n + 1) hi ns"
    using tiling_head [OF Cons.prems] by blast
  note b = greedy_block [OF g, folded n]
  have hd: "0 \<le> m_count (m_mask n) \<and> m_count (m_mask n) \<le> 32
          \<and> cidr_block (net_first n) (net_size n)
          \<and> unat (host_order (m_mask n)) = 2 ^ 32 - net_size n
          \<and> (\<forall>x. net_contains n x \<longleftrightarrow> in_block n x)
          \<and> unat (max_addr n) = net_first n + net_size n - 1"
    using b(3,4,5,6,7,8) by (intro conjI allI)
  show ?case
  proof (cases "max_addr n = hi")
    case True
    then show ?thesis using e hd by simp
  next
    case False
    then show ?thesis using Cons.IH [OF t [OF False]] hd by simp
  qed
qed

lemma tiling_adjacent:
  "tiling lo hi ns \<Longrightarrow>
     successively (\<lambda>n n'. net_first n' = net_first n + net_size n
        \<and> \<not> cidr_block (net_first n) (net_size n + net_size n')) ns"
proof (induction ns arbitrary: lo)
  case Nil
  then show ?case by simp
next
  case (Cons n ns)
  obtain k where g: "greedy (unat lo) (unat hi) k"
    and n: "n = \<lparr>m_addr = lo, m_mask = \<lparr>m_count = 32 - int k\<rparr>\<rparr>"
    and mh: "max_addr n \<le> hi"
    and e: "max_addr n = hi \<Longrightarrow> ns = []"
    and t: "max_addr n \<noteq> hi \<Longrightarrow> tiling (max_addr n + 1) hi ns"
    using tiling_head [OF Cons.prems] by blast
  note b = greedy_block [OF g, folded n]
  show ?case
  proof (cases "max_addr n = hi")
    case True
    then show ?thesis using e by simp
  next
    case False
    from t [OF False] obtain n' ns' where ns: "ns = n' # ns'"
      by (cases ns) auto
    obtain k' where g': "greedy (unat (max_addr n + 1)) (unat hi) k'"
      and n': "n' = \<lparr>m_addr = max_addr n + 1, m_mask = \<lparr>m_count = 32 - int k'\<rparr>\<rparr>"
      and mh': "max_addr n' \<le> hi"
      using tiling_head [OF t [OF False, unfolded ns]] by blast
    note b' = greedy_block [OF g', folded n']
    have u: "unat (max_addr n + 1) = Suc (unat (max_addr n))"
      using word_succ_below(1) [OF mh False] .
    have p: "0 < (2::nat) ^ k" "0 < (2::nat) ^ k'" by simp_all
    have 1: "net_first n' = net_first n + net_size n"
      unfolding b'(1) u b(8) b(2) using p by simp
    have "unat (max_addr n') \<le> unat hi" using mh' by (simp add: word_le_nat_alt)
    then have "unat lo + 2 ^ k + 2 ^ k' - 1 \<le> unat hi"
      unfolding b'(8) 1 b(1) b(2) b'(2) .
    then have 2: "\<not> cidr_block (net_first n) (net_size n + net_size n')"
      unfolding b(1) b(2) b'(2) by (rule greedy_no_larger_block [OF g])
    show ?thesis using Cons.IH [OF t [OF False]] ns 1 2 by simp
  qed
qed

lemma sorted_blocks:
  assumes s: "sorted_wrt (\<lambda>n n'. max_addr n < m_addr n') ns"
    and m: "\<forall>n\<in>set ns. cidr_block (net_first n) (net_size n)
                \<and> unat (max_addr n) = net_first n + net_size n - 1"
  shows "sorted_wrt (\<lambda>n n'. net_first n + net_size n \<le> net_first n') ns"
proof -
  have "\<And>n n'. n \<in> set ns \<Longrightarrow> n' \<in> set ns \<Longrightarrow> max_addr n < m_addr n'
      \<Longrightarrow> net_first n + net_size n \<le> net_first n'"
  proof -
    fix n n' assume a: "n \<in> set ns" "n' \<in> set ns" "max_addr n < m_addr n'"
    have "0 < net_size n" by (simp add: net_size_def)
    moreover have "unat (max_addr n) = net_first n + net_size n - 1" using m a(1) by blast
    moreover have "unat (max_addr n) < net_first n'"
      using a(3) by (simp add: word_less_nat_alt net_first_def)
    ultimately show "net_first n + net_size n \<le> net_first n'" by linarith
  qed
  then show ?thesis using s by (auto simp: sorted_wrt_iff_nth_less)
qed

section \<open>Network cover: the general theorem\<close>

text \<open>
  Claim C6. For every non-empty address range \<open>r\<close> the generator stops and yields a
  non-empty list of well-formed CIDR networks such that: an address lies in some
  emitted network exactly when it lies in \<open>r\<close> (the union is \<open>r\<close>); the networks come in
  increasing address order, each ending below the start of every later one, hence
  no address lies in two of them; each next network starts one past the end of the
  previous one, and that end is never the maximal address, so the increment does not
  wrap around; no two consecutive networks are the halves of a single network; and
  for the whole address space the list is the single network \<open>0.0.0.0/0\<close>.

  Each emitted network \<open>a/c\<close> is moreover tied to the numbers it stands for: \<open>c\<close> lies
  in \<open>[0, 32]\<close>, \<open>a\<close> is a multiple of \<open>2 ^ (32 - c)\<close> and the block
  \<open>[a, a + 2 ^ (32 - c) - 1]\<close> ends inside the address space; the expanded mask is the
  number \<open>2 ^ 32 - 2 ^ (32 - c)\<close>; the membership test and the last address of the code
  are membership in that block and its last number. Read as blocks of numbers, the
  networks have the range as their union, lie one after the other without overlap,
  each next block starts right after the previous one, and no two consecutive blocks
  make up one CIDR block.
\<close>

theorem C6_network_cover:
  assumes "\<not> is_empty r"
  shows "(\<exists>ns. generate_networks r = Some ns \<and> ns \<noteq> []
           \<and> (\<forall>n\<in>set ns. valid_net n)
           \<and> (\<forall>a. (\<exists>n\<in>set ns. net_contains n a) \<longleftrightarrow> i_min r \<le> a \<and> a \<le> i_max r)
           \<and> sorted_wrt (\<lambda>n n'. max_addr n < m_addr n') ns
           \<and> (\<forall>i j a. i < j \<and> j < length ns
                  \<longrightarrow> \<not> (net_contains (ns ! i) a \<and> net_contains (ns ! j) a))
           \<and> successively (\<lambda>n n'. max_addr n \<noteq> ip4_MAX \<and> m_addr n' = max_addr n + 1) ns
           \<and> successively (\<lambda>n n'. \<not> mergeable n n') ns
           \<and> (\<forall>n\<in>set ns. 0 \<le> m_count (m_mask n) \<and> m_count (m_mask n) \<le> 32
                  \<and> cidr_block (net_first n) (net_size n)
                  \<and> unat (host_order (m_mask n)) = 2 ^ 32 - net_size n
                  \<and> (\<forall>a. net_contains n a \<longleftrightarrow> in_block n a)
                  \<and> unat (max_addr n) = net_first n + net_size n - 1)
           \<and> (\<forall>a. (\<exists>n\<in>set ns. in_block n a) \<longleftrightarrow> i_min r \<le> a \<and> a \<le> i_max r)
           \<and> sorted_wrt (\<lambda>n n'. net_first n + net_size n \<le> net_first n') ns
           \<and> successively (\<lambda>n n'. net_first n' = net_first n + net_size n
                  \<and> \<not> cidr_block (net_first n) (net_size n + net_size n')) ns)
         \<and> generate_networks (interval2 ip4_MIN ip4_MAX) = Some [cidr 0 0]"
proof
  have le: "i_min r \<le> i_max r" using assms by (simp add: is_empty_def)
  have r: "r = \<lparr>i_min = i_min r, i_max = i_max r\<rparr>" by simp
  obtain ns where g: "generate_networks r = Some ns" and t: "tiling (i_min r) (i_max r) ns"
    using generate_networks_tiling [OF le] r by metis
  have 1: "ns \<noteq> []" and 2: "\<forall>n\<in>set ns. valid_net n"
    using tiling_bounds [OF t] by simp_all
  have 3: "\<forall>a. (\<exists>n\<in>set ns. net_contains n a) \<longleftrightarrow> i_min r \<le> a \<and> a \<le> i_max r"
    using tiling_union [OF t] by simp
  have 4: "sorted_wrt (\<lambda>n n'. max_addr n < m_addr n') ns" by (rule tiling_sorted [OF t])
  have 5: "\<forall>i j a. i < j \<and> j < length ns
                  \<longrightarrow> \<not> (net_contains (ns ! i) a \<and> net_contains (ns ! j) a)"
    using sorted_disjoint [OF 4 tiling_contains [OF t]] by blast
  have 6: "successively (\<lambda>n n'. max_addr n \<noteq> ip4_MAX \<and> m_addr n' = max_addr n + 1) ns"
    by (rule tiling_successive [OF t])
  have 7: "successively (\<lambda>n n'. \<not> mergeable n n') ns" by (rule tiling_minimal [OF t])
  have 8: "\<forall>n\<in>set ns. 0 \<le> m_count (m_mask n) \<and> m_count (m_mask n) \<le> 32
                  \<and> cidr_block (net_first n) (net_size n)
                  \<and> unat (host_order (m_mask n)) = 2 ^ 32 - net_size n
                  \<and> (\<forall>a. net_contains n a \<longleftrightarrow> in_block n a)
                  \<and> unat (max_addr n) = net_first n + net_size n - 1"
    by (rule tiling_blocks [OF t])
  have 9: "\<forall>a. (\<exists>n\<in>set ns. in_block n a) \<longleftrightarrow> i_min r \<le> a \<and> a \<le> i_max r"
  proof
    fix a
    have "(\<exists>n\<in>set ns. in_block n a) \<longleftrightarrow> (\<exists>n\<in>set ns. net_contains n a)"
      using 8 by blast
    then show "(\<exists>n\<in>set ns. in_block n a) \<longleftrightarrow> i_min r \<le> a \<and> a \<le> i_max r"
      using 3 by simp
  qed
  have 10: "sorted_wrt (\<lambda>n n'. net_first n + net_size n \<le> net_first n') ns"
    using 4 by (rule sorted_blocks) (use 8 in blast)
  have 11: "successively (\<lambda>n n'. net_first n' = net_first n + net_size n
                  \<and> \<not> cidr_block (net_first n) (net_size n + net_size n')) ns"
    by (rule tiling_adjacent [OF t])
  show "\<exists>ns. generate_networks r = Some ns \<and> ns \<noteq> []
           \<and> (\<forall>n\<in>set ns. valid_net n)
           \<and> (\<forall>a. (\<exists>n\<in>set ns. net_contains n a) \<longleftrightarrow> i_min r \<le> a \<and> a \<le> i_max r)
           \<and> sorted_wrt (\<lambda>n n'. max_addr n < m_addr n') ns
           \<and> (\<forall>i j a. i < j \<and> j < length ns
                  \<longrightarrow> \<not> (net_contains (ns ! i) a \<and> net_contains (ns ! j) a))
           \<and> successively (\<lambda>n n'. max_addr n \<noteq> ip4_MAX \<and> m_addr n' = max_addr n + 1) ns
           \<and> successively (\<lambda>n n'. \<not> mergeable n n') ns
           \<and> (\<forall>n\<in>set ns. 0 \<le> m_count (m_mask n) \<and> m_count (m_mask n) \<le> 32
                  \<and> cidr_block (net_first n) (net_size n)
                  \<and> unat (host_order (m_mask n)) = 2 ^ 32 - net_size n
                  \<and> (\<forall>a. net_contains n a \<longleftrightarrow> in_block n a)
                  \<and> unat (max_addr n) = net_first n + net_size n - 1)
           \<and> (\<forall>a. (\<exists>n\<in>set ns. in_block n a) \<longleftrightarrow> i_min r \<le> a \<and> a \<le> i_max r)
           \<and> sorted_wrt (\<lambda>n n'. net_first n + net_size n \<le> net_first n') ns
           \<and> successively (\<lambda>n n'. net_first n' = net_first n + net_size n
                  \<and> \<not> cidr_block (net_first n) (net_size n + net_size n')) ns"
    using g 1 2 3 4 5 6 7 8 9 10 11 by (intro exI [of _ ns] conjI)
  show "generate_networks (interval2 ip4_MIN ip4_MAX) = Some [cidr 0 0]"
    by code_simp
qed

text \<open>The theorem at the range \<open>192.168.1.3 .. 192.168.2.20\<close>, which is not empty.\<close>

theorem C6_network_cover_witness:
  "\<not> is_empty (interval2 (octets 192 168 1 3) (octets 192 168 2 20))
   \<and> (\<exists>ns. generate_networks (interval2 (octets 192 168 1 3) (octets 192 168 2 20)) = Some ns
         \<and> ns \<noteq> []
         \<and> (\<forall>a. (\<exists>n\<in>set ns. net_contains n a)
                \<longleftrightarrow> octets 192 168 1 3 \<le> a \<and> a \<le> octets 192 168 2 20)
         \<and> sorted_wrt (\<lambda>n n'. max_addr n < m_addr n') ns
         \<and> successively (\<lambda>n n'. \<not> mergeable n n') ns
         \<and> (\<forall>n\<in>set ns. cidr_block (net_first n) (net_size n)
                \<and> unat (host_order (m_mask n)) = 2 ^ 32 - net_size n
                \<and> (\<forall>a. net_contains n a \<longleftrightarrow> in_block n a))
         \<and> (\<forall>a. (\<exists>n\<in>set ns. in_block n a)
                \<longleftrightarrow> octets 192 168 1 3 \<le> a \<and> a \<le> octets 192 168 2 20)
         \<and> sorted_wrt (\<lambda>n n'. net_first n + net_size n \<le> net_first n') ns
         \<and> successively (\<lambda>n n'. net_first n' = net_first n + net_size n
                \<and> \<not> cidr_block (net_first n) (net_size n + net_size n')) ns)"
proof -
  let ?r = "interval2 (octets 192 168 1 3) (octets 192 168 2 20)"
  have h: "\<not> is_empty ?r" by code_simp
  have lo: "i_min ?r = octets 192 168 1 3" by code_simp
  have hi: "i_max ?r = octets 192 168 2 20" by code_simp
  from C6_network_cover [OF h] obtain ns where ns:
    "generate_networks ?r = Some ns" "ns \<noteq> []"
    "\<forall>a. (\<exists>n\<in>set ns. net_contains n a) \<longleftrightarrow> i_min ?r \<le> a \<and> a \<le> i_max ?r"
    "sorted_wrt (\<lambda>n n'. max_addr n < m_addr n') ns"
    "successively (\<lambda>n n'. \<not> mergeable n n') ns"
    "\<forall>n\<in>set ns. 0 \<le> m_count (m_mask n) \<and> m_count (m_mask n) \<le> 32
         \<and> cidr_block (net_first n) (net_size n)
         \<and> unat (host_order (m_mask n)) = 2 ^ 32 - net_size n
         \<and> (\<forall>a. net_contains n a \<longleftrightarrow> in_block n a)
         \<and> unat (max_addr n) = net_first n + net_size n - 1"
    "\<forall>a. (\<exists>n\<in>set ns. in_block n a) \<longleftrightarrow> i_min ?r \<le> a \<and> a \<le> i_max ?r"
    "sorted_wrt (\<lambda>n n'. net_first n + net_size n \<le> net_first n') ns"
    "successively (\<lambda>n n'. net_first n' = net_first n + net_size n
         \<and> \<not> cidr_block (net_first n) (net_size n + net_size n')) ns"
    by blast
  have b: "\<forall>n\<in>set ns. cidr_block (net_first n) (net_size n)
                \<and> unat (host_order (m_mask n)) = 2 ^ 32 - net_size n
                \<and> (\<forall>a. net_contains n a \<longleftrightarrow> in_block n a)"
    using ns(6) by blast
  show ?thesis
    using h ns(1,2) ns(3) [unfolded lo hi] ns(4,5) b ns(7) [unfolded lo hi] ns(8,9)
    by (intro conjI exI [of _ ns])
qed

section \<open>Interval laws\<close>

text \<open>
  The result of \<open>intersection\<close> is built by the sorting two-argument constructor, so
  it is never the empty interval, whatever the operands are.
\<close>

lemma intersection_never_empty: "\<not> is_empty (intersection a b)"
  by (simp add: is_empty_def intersection_def interval2_def)

text \<open>
  Claim C9 (the code at the failing input). For the disjoint, non-empty intervals
  \<open>[0, 1]\<close> and \<open>[5, 6]\<close> of addresses, \<open>has_intersection\<close> is false, as it should be,
  but \<open>intersection\<close> returns the non-empty interval \<open>[1, 5]\<close>: the equivalence
  "the intersection is empty iff there is no intersection" fails in the code.
\<close>

theorem C9_intersection_of_disjoint_intervals:
  "intersection (interval2 (0::ip4_addr) 1) (interval2 5 6) = \<lparr>i_min = 1, i_max = 5\<rparr>
   \<and> \<not> is_empty (intersection (interval2 (0::ip4_addr) 1) (interval2 5 6))
   \<and> \<not> has_intersection (interval2 (0::ip4_addr) 1) (interval2 5 6)"
  by code_simp

section \<open>Network cover: concrete ranges\<close>

text \<open>
  Claim C7, as stated, fails: the cover of \<open>10.0.0.5 .. 10.0.0.10\<close> that the generator
  produces is not \<open>10.0.0.5/32, 10.0.0.6/31, 10.0.0.8/30\<close> (the last network would
  reach \<open>10.0.0.11\<close>, outside the range).
\<close>

theorem C7_cover_counterexample:
  "generate_networks (interval2 (octets 10 0 0 5) (octets 10 0 0 10))
     \<noteq> Some [cidr (octets 10 0 0 5) 32, cidr (octets 10 0 0 6) 31, cidr (octets 10 0 0 8) 30]"
  by code_simp

text \<open>
  Claim C7, amended: generating the network cover of \<open>10.0.0.5 .. 10.0.0.10\<close> produces
  exactly the four networks \<open>10.0.0.5/32, 10.0.0.6/31, 10.0.0.8/31, 10.0.0.10/32\<close>.
\<close>

theorem C7_cover_of_10_0_0_5_to_10:
  "generate_networks (interval2 (octets 10 0 0 5) (octets 10 0 0 10))
     = Some [cidr (octets 10 0 0 5) 32, cidr (octets 10 0 0 6) 31,
             cidr (octets 10 0 0 8) 31, cidr (octets 10 0 0 10) 32]"
  by code_simp

section \<open>IpSet::Remove: the upper remainder\<close>

text \<open>
  Claim C8 (the code at the failing input). The set holds the one range \<open>[0..10]\<close>;
  \<open>Remove([3..7])\<close> returns and leaves only \<open>[0..2]\<close>. The portion \<open>[8..10]\<close>, strictly
  above the removed range, is lost: the address \<open>9\<close> was in the set, is not in the
  removed range, and is in no range of the result.
\<close>

theorem C8_Remove_drops_upper_remainder:
  "Remove [IpRange_of 0 10] (IpRange_of 3 7) = Some [IpRange_of 0 2]
   \<and> IsCompatible (IpRange_of 0 10) 9
   \<and> \<not> IsCompatible (IpRange_of 3 7) 9
   \<and> \<not> IsCompatible (IpRange_of 0 2) 9"
  by code_simp

section \<open>Paint map: the read at the end of the map\<close>

lemma Pt_middle_loop_Nil: "Pt_middle_loop rng [] pos = ([], pos)"
  by (subst Pt_middle_loop.simps) simp

lemma Upt_middle_loop_Nil: "Upt_middle_loop rng color [] pos = Inr ([], pos)"
  by (subst Upt_middle_loop.simps) simp

lemma Bd_middle_loop_Nil: "Bd_middle_loop rng color [] pos lastPair = Some (Inr ([], pos, lastPair))"
  by (subst Bd_middle_loop.simps) simp

lemma Ubd_middle_loop_Nil: "Ubd_middle_loop rng color [] pos = Some (Inr ([], pos))"
  by (subst Ubd_middle_loop.simps) simp

lemma lower_bound_Nil: "lower_bound key [] k = 0"
  by (simp add: lower_bound_def)

text \<open>
  Claim C10 (the code at the failing input). The empty map satisfies the paint-map
  invariants. On it, for every operation range and every color, each of the four
  middle-phase helpers leaves its loop at once with the position at the end of the
  map and then dereferences that position; and each of the five operations reaches
  its middle-phase helper in that state, since \<open>lower_bound\<close> returns \<open>end()\<close> and the
  left phase does nothing when the position is \<open>begin()\<close>.
\<close>

theorem C10_middle_phase_reads_end_of_empty_map:
  "Pt_middle rng [] 0 tmpPair isLeftSpan = Inl DerefEnd
   \<and> Upt_middle rng color [] 0 tmpPair isLeftSpan = Inl DerefEnd
   \<and> Bd_middle rng color [] 0 tmpPair isLeftSpan = Some (Inl DerefEnd)
   \<and> Ubd_middle rng color [] 0 tmpPair isLeftSpan = Some (Inl DerefEnd)
   \<and> Paint rng color [] = Some (Inl DerefEnd)
   \<and> Unpaint rng color [] = Inl DerefEnd
   \<and> UnColor rng [] = Inl DerefEnd
   \<and> Blend rng color [] = Some (Inl DerefEnd)
   \<and> Unblend rng color [] = Some (Inl DerefEnd)"
  by (simp add: Pt_middle_def Upt_middle_def Bd_middle_def Ubd_middle_def
        Paint_def Unpaint_def UnColor_def Blend_def Unblend_def then_Coalesce_def
        Pt_left_def Upt_left_def Bd_left_def Ubd_left_def Bd_middle_tail_def
        Pt_middle_loop_Nil Upt_middle_loop_Nil Bd_middle_loop_Nil Ubd_middle_loop_Nil
        lower_bound_Nil deref_def bind_ub_def)

section \<open>Paint map: the scenarios\<close>

text \<open>
  Claim C3 (the code at the failing input). On the empty map, \<open>Paint([0..10], RED)\<close>
  does not produce a map: \<open>Pt_middle\<close> dereferences the end of the map. The second
  step does not produce a map either, even from the map \<open>[0..10]=RED\<close> that the first
  step is meant to leave: \<open>Pt_middle\<close> again dereferences the end of the map. The colors
  \<open>RED\<close> and \<open>BLUE\<close> are the values \<open>1\<close> and \<open>2\<close>.
\<close>

theorem C3_Paint_on_empty_map:
  "Paint (IpRange_of 0 10) (Some 1) [] = Some (Inl DerefEnd)
   \<and> Paint (IpRange_of 5 7) (Some 2) [(IpRange_of 0 10, Some 1)] = Some (Inl DerefEnd)"
  by code_simp

text \<open>
  Claim C5 (the code at the failing input). On the empty map, \<open>Blend([0..4], R)\<close> does
  not produce a map: \<open>Bd_middle\<close> dereferences the end of the map. The second step
  does not produce a map either, even from the map \<open>[0..4]=R\<close> that the first step is
  meant to leave. The colors \<open>R\<close> and \<open>B\<close> are the values \<open>1\<close> and \<open>2\<close>.
\<close>

theorem C5_Blend_on_empty_map:
  "Blend (IpRange_of 0 4) (Some 1) [] = Some (Inl DerefEnd)
   \<and> Blend (IpRange_of 2 6) (Some 2) [(IpRange_of 0 4, Some 1)] = Some (Inl DerefEnd)"
  by code_simp

text \<open>
  Claim C4 (the code at the failing input). The map \<open>[0..3]=RED, [10..20]=BLUE\<close> is
  disjoint, ordered and coalesced. \<open>Unpaint([0..5], RED)\<close> returns with no error and
  leaves \<open>[0..MAX]=RED, [10..20]=BLUE\<close>: \<open>LeftSkew\<close> computes the upper bound of the
  left remainder as \<open>range.GetLowerBound() - 1\<close>, which wraps around at address \<open>0\<close>.
  The two segments of the result overlap.
\<close>

theorem C4_Unpaint_leaves_overlapping_segments:
  "Unpaint (IpRange_of 0 5) (Some 1) [(IpRange_of 0 3, Some 1), (IpRange_of 10 20, Some 2)]
     = Inr [(IpRange_of 0 (- 1), Some 1), (IpRange_of 10 20, Some 2)]
   \<and> HasOverlap (IpRange_of 0 (- 1)) (IpRange_of 10 20)
   \<and> \<not> HasOverlap (IpRange_of 0 3) (IpRange_of 10 20)"
  by code_simp

end
